theory Spec2Isabelle
  imports Main "HOL-Library.Word"
begin

section \<open>Data model of the license-plate-reader client (app.py)\<close>

text \<open>
  The client segments the camera's MJPEG byte stream into frames, keeps every n-th frame
  and hands it to a pool of inference workers through a queue. Python integers are
  unbounded, so counters are \<open>int\<close>. A chunk handed to \<open>write\<close> is a \<open>bytes\<close> object.
\<close>

type_synonym byte = "8 word"
type_synonym bytes = "byte list"

datatype error = ZeroDivisionError | AssertionError

text \<open>The dictionary \<open>{"frame_num": ..., "jpeg": ...}\<close> that \<open>write\<close> puts on the queue.\<close>

record FrameTask =
  task_frame_num :: int
  jpeg :: bytes

text \<open>
  Modelled from the spec: the result a worker makes of a task (the workers are defined in
  \<open>workers.py\<close>, which is not among the sources); section 3 leaves its content opaque,
  so it is the task it was made from.
\<close>

datatype InferenceResult = InferenceResult FrameTask

text \<open>
  A \<open>multiprocessing.Queue\<close>: its items, oldest first, and the flag that
  \<open>cancel_join_thread\<close> sets.
\<close>

record 'a Queue =
  items :: "'a list"
  joincancelled :: bool

definition Queue_new :: "'a Queue" where
  "Queue_new = \<lparr>items = [], joincancelled = False\<rparr>"

definition put :: "'a Queue \<Rightarrow> 'a \<Rightarrow> 'a Queue" where
  "put q x = q\<lparr>items := items q @ [x]\<rparr>"

definition cancel_join_thread :: "'a Queue \<Rightarrow> 'a Queue" where
  "cancel_join_thread q = q\<lparr>joincancelled := True\<rparr>"

text \<open>
  The process behind a \<open>WorkerPool\<close> (\<open>run\<close>, lines 43 to 50): not yet started, creating
  and starting its workers, polling the stop event, joining worker \<open>i\<close>, finished.
\<close>

datatype proc = NotStarted | Spawning | Polling | Joining nat | Finished

record WorkerPool =
  event_stopper :: bool
  pool_size :: int
  process :: proc

text \<open>
  The attributes of \<open>DistributeFramesAndInfer\<close>. \<open>workers\<close> and \<open>pick_every_nth_frame\<close>
  are the keys of the pool configuration that \<open>__init__\<close> copies onto the object with
  \<open>setattr\<close>; the configuration is taken as typed (integer values under these two keys).
\<close>

record DistributeFramesAndInfer =
  frame_num :: int
  in_queue :: "FrameTask Queue"
  out_queue :: "InferenceResult Queue"
  workers :: int
  pick_every_nth_frame :: int
  pool :: WorkerPool

text \<open>
  The content of \<open>config.json\<close>, read as typed sections: the keys that \<open>main\<close> and
  \<open>__init__\<close> read, with integer values; the two sections that are only handed on to
  other modules are kept as text.
\<close>

record pool_config =
  cfg_workers :: int
  cfg_pick_every_nth_frame :: int

record source_config =
  sensor_mode :: int
  resolution :: "int \<times> int"
  framerate :: int

record general_config =
  frame_count_threshold :: int
  output_file :: string

record config =
  video_source :: source_config
  broadcaster :: string
  inferencing_pool :: pool_config
  inferencing_worker :: string
  general :: general_config

section \<open>WorkerPool and DistributeFramesAndInfer\<close>

definition WorkerPool_init :: "int \<Rightarrow> WorkerPool" where
  "WorkerPool_init n = \<lparr>event_stopper = False, pool_size = n, process = NotStarted\<rparr>"

text \<open>\<open>Process.start\<close>: the child process begins to execute \<open>run\<close>.\<close>

definition WorkerPool_start :: "WorkerPool \<Rightarrow> WorkerPool" where
  "WorkerPool_start p = p\<lparr>process := Spawning\<rparr>"

text \<open>\<open>WorkerPool.stop\<close> (lines 52 and 53): set the event.\<close>

definition WorkerPool_stop :: "WorkerPool \<Rightarrow> WorkerPool" where
  "WorkerPool_stop p = p\<lparr>event_stopper := True\<rparr>"

text \<open>\<open>DistributeFramesAndInfer.__init__\<close> (lines 56 to 63).\<close>

definition DistributeFramesAndInfer_init :: "pool_config \<Rightarrow> DistributeFramesAndInfer" where
  "DistributeFramesAndInfer_init pool_cfg =
     \<lparr>frame_num = 0,
      in_queue = Queue_new,
      out_queue = Queue_new,
      workers = cfg_workers pool_cfg,
      pick_every_nth_frame = cfg_pick_every_nth_frame pool_cfg,
      pool = WorkerPool_start (WorkerPool_init (cfg_workers pool_cfg))\<rparr>"

text \<open>The JPEG start-of-image marker \<open>b"\xff\xd8"\<close> and \<open>bytes.startswith\<close>.\<close>

definition SOI :: bytes where
  "SOI = [0xFF, 0xD8]"

definition startswith :: "bytes \<Rightarrow> bytes \<Rightarrow> bool" where
  "startswith buf prefix = (take (length prefix) buf = prefix)"

text \<open>
  \<open>DistributeFramesAndInfer.write\<close> (lines 65 to 73); \<open>write\<close> alone is a keyword
  of Isabelle, so the methods carry the name of their class. Python's \<open>%\<close> raises
  ZeroDivisionError on a zero divisor, before the counter is incremented; on integers it
  is the floored remainder, as \<open>mod\<close> on \<open>int\<close> is.
\<close>

definition DistributeFramesAndInfer_write :: "DistributeFramesAndInfer \<Rightarrow> bytes \<Rightarrow> error + DistributeFramesAndInfer" where
  "DistributeFramesAndInfer_write self buf =
     (if startswith buf SOI then
        (if pick_every_nth_frame self = 0 then Inl ZeroDivisionError
         else
           Inr ((if frame_num self mod pick_every_nth_frame self = 0
                 then self\<lparr>in_queue :=
                        put (in_queue self) \<lparr>task_frame_num = frame_num self, jpeg = buf\<rparr>\<rparr>
                 else self)
                \<lparr>frame_num := frame_num self + 1\<rparr>))
      else Inr self)"

text \<open>The camera calls \<open>write\<close> once for each chunk; an exception ends the sequence.\<close>

fun writes :: "DistributeFramesAndInfer \<Rightarrow> bytes list \<Rightarrow> error + DistributeFramesAndInfer" where
  "writes self [] = Inr self"
| "writes self (buf # bufs) =
     (case DistributeFramesAndInfer_write self buf of Inl e \<Rightarrow> Inl e | Inr self' \<Rightarrow> writes self' bufs)"

text \<open>
  The segmenter as section 4.1 of the specification words it (increment the counter, then
  test it), to be compared with \<open>DistributeFramesAndInfer_write\<close>.
\<close>

definition write_increments_first ::
    "DistributeFramesAndInfer \<Rightarrow> bytes \<Rightarrow> error + DistributeFramesAndInfer" where
  "write_increments_first self buf =
     (if startswith buf SOI then
        (let self1 = self\<lparr>frame_num := frame_num self + 1\<rparr> in
         if pick_every_nth_frame self1 = 0 then Inl ZeroDivisionError
         else if frame_num self1 mod pick_every_nth_frame self1 = 0
           then Inr (self1\<lparr>in_queue :=
                  put (in_queue self1) \<lparr>task_frame_num = frame_num self1, jpeg = buf\<rparr>\<rparr>)
           else Inr self1)
      else Inr self)"

text \<open>
  The tasks a keep-every-n-th policy selects from chunks numbered \<open>k\<close>, \<open>k + 1\<close>, ...: those
  whose number is a multiple of \<open>n\<close>, in the order of the chunks.
\<close>

definition kept_frames :: "int \<Rightarrow> nat \<Rightarrow> bytes list \<Rightarrow> FrameTask list" where
  "kept_frames n k bufs =
     map (\<lambda>(i, buf). \<lparr>task_frame_num = int i, jpeg = buf\<rparr>)
       (filter (\<lambda>(i, buf). int i mod n = 0) (enumerate k bufs))"

text \<open>
  The tasks on the queue carry increasing frame numbers, all below the counter.
\<close>

definition numbered_in_order :: "DistributeFramesAndInfer \<Rightarrow> bool" where
  "numbered_in_order s =
     (sorted_wrt (<) (map task_frame_num (items (in_queue s)))
      \<and> (\<forall>t\<in>set (items (in_queue s)). task_frame_num t < frame_num s))"

text \<open>
  \<open>Process.join\<close> on the pool: an assertion fails on a process that was never started;
  otherwise the call returns when the process has ended. \<open>ends\<close> says whether a process
  that is still running ever ends; if not, the call never returns (\<open>None\<close>).
\<close>

definition Process_join :: "bool \<Rightarrow> WorkerPool \<Rightarrow> (error + WorkerPool) option" where
  "Process_join ends p =
     (if process p = NotStarted then Some (Inl AssertionError)
      else if process p = Finished \<or> ends then Some (Inr (p\<lparr>process := Finished\<rparr>))
      else None)"

text \<open>\<open>DistributeFramesAndInfer.stop\<close> (lines 75 to 79).\<close>

definition DistributeFramesAndInfer_stop ::
    "bool \<Rightarrow> DistributeFramesAndInfer \<Rightarrow> (error + DistributeFramesAndInfer) option" where
  "DistributeFramesAndInfer_stop ends self =
     (case Process_join ends (WorkerPool_stop (pool self)) of
        None \<Rightarrow> None
      | Some (Inl e) \<Rightarrow> Some (Inl e)
      | Some (Inr p) \<Rightarrow>
          Some (Inr (self\<lparr>pool := p,
                         in_queue := cancel_join_thread (in_queue self),
                         out_queue := cancel_join_thread (out_queue self)\<rparr>)))"

section \<open>The load shedder\<close>

text \<open>
  Modelled from the spec: the class \<open>Flusher\<close> is defined in \<open>workers.py\<close>, which is not
  among the sources; \<open>main\<close> only constructs it on the frames queue with a threshold,
  starts it and stops it. Section 4.3: when the depth exceeds the threshold, entries are
  drained and discarded, oldest first, until the depth is at most the threshold. An
  empty queue has nothing left to drain.
\<close>

fun shed :: "int \<Rightarrow> 'a list \<Rightarrow> 'a list" where
  "shed threshold [] = []"
| "shed threshold (x # xs) =
     (if int (length (x # xs)) > threshold then shed threshold xs else x # xs)"

text \<open>Modelled from the spec: one sampling of the queue by the Flusher (section 4.3).\<close>

definition Flusher_sample :: "int \<Rightarrow> 'a Queue \<Rightarrow> 'a Queue" where
  "Flusher_sample threshold q = q\<lparr>items := shed threshold (items q)\<rparr>"

section \<open>main\<close>

text \<open>
  What \<open>open\<close> and \<open>json.load\<close> make of \<open>config.json\<close>: \<open>open\<close> raises, \<open>json.load\<close>
  raises (reading or parsing), or a configuration is returned. The text is \<open>str(error)\<close>.
\<close>

datatype config_file = Unopenable string | Unparsable string | Parsed config

datatype queue_id = FramesQueue | InferencedQueue

text \<open>The calls \<open>main\<close> makes on its collaborators, in the order it makes them.\<close>

datatype event =
    SignalHandlers
  | LogCritical string
  | LogInfo string
  | OutputCreated pool_config
  | ReassemblerStart
  | FlusherStart int
  | CameraOpen
  | CameraConfigure source_config
  | StartRecording nat
  | WaitRecording nat
  | StopRecording nat
  | PoolStop
  | PoolJoin
  | CancelJoinThread queue_id
  | CameraClose
  | ReassemblerStop
  | FlusherStop

text \<open>Lines 105 to 132: every component is created and started.\<close>

definition startup :: "config \<Rightarrow> event list" where
  "startup cfg =
     [LogInfo ''initializing pool'',
      OutputCreated (inferencing_pool cfg),
      LogInfo ''initialized worker pool'',
      ReassemblerStart,
      FlusherStart (frame_count_threshold (general cfg)),
      CameraOpen,
      CameraConfigure (video_source cfg),
      LogInfo ''picamera initialized'',
      StartRecording 0,
      StartRecording 1,
      LogInfo ''started recording to file and to queue'']"

text \<open>Lines 135 to 138: one round of the loop that waits for \<open>kill_now\<close>.\<close>

definition wait_round :: "event list" where
  "wait_round = [WaitRecording 0, WaitRecording 1, LogInfo ''frames qsize, inferenced qsize'']"

definition wait_loop :: "nat \<Rightarrow> event list" where
  "wait_loop k = concat (replicate k wait_round)"

text \<open>
  Lines 141 to 147. \<open>output.stop()\<close> is \<open>DistributeFramesAndInfer.stop\<close>: the pool's
  \<open>stop\<close>, the pool's \<open>join\<close>, and \<open>cancel_join_thread\<close> on both queues. Leaving the
  \<open>with\<close> block closes the camera.
\<close>

definition teardown :: "event list" where
  "teardown =
     [LogInfo ''gracefully exiting'',
      StopRecording 0,
      StopRecording 1,
      PoolStop,
      PoolJoin,
      CancelJoinThread FramesQueue,
      CancelJoinThread InferencedQueue,
      CameraClose,
      ReassemblerStop,
      FlusherStop]"

definition main_events :: "config \<Rightarrow> nat \<Rightarrow> event list" where
  "main_events cfg k = SignalHandlers # startup cfg @ wait_loop k @ teardown"

text \<open>
  \<open>main\<close> (lines 84 to 147), as the sequence of the calls it makes until it ends;
  \<open>None\<close> is a \<open>main\<close> that does not end. \<open>kill_after\<close> is the number of rounds of the
  waiting loop that pass before the loop's test sees \<open>kill_now\<close> set by a signal; with no
  signal ever the loop goes on for ever. \<open>output.stop()\<close> (line 144) is
  \<open>DistributeFramesAndInfer_stop\<close> on the object made on line 106, whose pool no
  \<open>write\<close> touches: its \<open>join\<close> has no timeout, so \<open>main\<close> waits there for as long as
  the pool process runs (\<open>pool_ends\<close> says whether it ever ends), and an error of the
  join would leave the \<open>with\<close> block, closing the camera, and end \<open>main\<close> before
  the reassembler and the Flusher are stopped.
\<close>

definition main :: "config_file \<Rightarrow> nat option \<Rightarrow> bool \<Rightarrow> event list option" where
  "main file kill_after pool_ends =
     (case file of
        Unopenable msg \<Rightarrow> Some [SignalHandlers, LogCritical msg]
      | Unparsable msg \<Rightarrow> Some [SignalHandlers, LogCritical msg]
      | Parsed cfg \<Rightarrow>
          (case kill_after of
             None \<Rightarrow> None
           | Some k \<Rightarrow>
               (case DistributeFramesAndInfer_stop pool_ends
                       (DistributeFramesAndInfer_init (inferencing_pool cfg)) of
                  None \<Rightarrow> None
                | Some (Inl e) \<Rightarrow>
                    Some (SignalHandlers # startup cfg @ wait_loop k @
                      [LogInfo ''gracefully exiting'', StopRecording 0, StopRecording 1,
                       PoolStop, CameraClose])
                | Some (Inr stopped) \<Rightarrow> Some (main_events cfg k))))"

text \<open>\<open>a\<close> occurs in the sequence, and \<open>b\<close> occurs after the first \<open>a\<close>.\<close>

definition happens_before :: "event \<Rightarrow> event \<Rightarrow> event list \<Rightarrow> bool" where
  "happens_before a b tr = (b \<in> set (drop 1 (dropWhile (\<lambda>e. e \<noteq> a) tr)))"

section \<open>The running system\<close>

text \<open>
  The program runs as several activities that share the two queues and the pool's stop
  event: the main thread, the pool process, the workers it creates, the Flusher, the
  camera's encoder calling \<open>write\<close>, and the reassembler. The system is modelled as the
  interleaving of their atomic steps.
\<close>

text \<open>
  Modelled from the spec: the class \<open>InferenceWorker\<close> is defined in \<open>workers.py\<close>, which is
  not among the sources. Section 4.2 gives the loop of a worker: pull a task from the work
  queue; exit if a stop is requested; otherwise infer and push the result. A worker is
  about to pull, holds a task it has pulled, or has exited.
\<close>

datatype worker = Pulling | Holding FrameTask | Exited

record system =
  main_todo :: "event list"
  main_done :: "event list"
  the_output :: DistributeFramesAndInfer
  pool_workers :: "worker list"
  recording :: bool
  flusher_running :: bool
  flusher_threshold :: int
  reassembler_running :: bool

text \<open>
  The state in which \<open>main\<close> begins with a parsed configuration and a signal after \<open>k\<close>
  rounds: nothing runs yet. The object \<open>output\<close> of \<open>main\<close> (the field \<open>the_output\<close>) does not exist before
  \<open>OutputCreated\<close>, which overwrites the whole field; until then no activity reads it.
\<close>

definition system_init :: "config \<Rightarrow> nat \<Rightarrow> system" where
  "system_init cfg k =
     \<lparr>main_todo = main_events cfg k,
      main_done = [],
      the_output = (DistributeFramesAndInfer_init (inferencing_pool cfg))
                 \<lparr>pool := WorkerPool_init (cfg_workers (inferencing_pool cfg))\<rparr>,
      pool_workers = [],
      recording = False,
      flusher_running = False,
      flusher_threshold = frame_count_threshold (general cfg),
      reassembler_running = False\<rparr>"

text \<open>
  The effect of one call of \<open>main\<close> on the shared state; \<open>None\<close> is a call that blocks.
  \<open>pool.join()\<close> returns only when the pool process has ended. The camera hands
  chunks to \<open>output\<close> while it records on splitter port 1.
\<close>

fun main_effect :: "event \<Rightarrow> system \<Rightarrow> system option" where
  "main_effect (OutputCreated pool_cfg) s =
     Some (s\<lparr>the_output := DistributeFramesAndInfer_init pool_cfg\<rparr>)"
| "main_effect ReassemblerStart s = Some (s\<lparr>reassembler_running := True\<rparr>)"
| "main_effect (FlusherStart threshold) s =
     Some (s\<lparr>flusher_running := True, flusher_threshold := threshold\<rparr>)"
| "main_effect (StartRecording port) s =
     Some (if port = 1 then s\<lparr>recording := True\<rparr> else s)"
| "main_effect (StopRecording port) s =
     Some (if port = 1 then s\<lparr>recording := False\<rparr> else s)"
| "main_effect PoolStop s =
     Some (s\<lparr>the_output := (the_output s)\<lparr>pool := WorkerPool_stop (pool (the_output s))\<rparr>\<rparr>)"
| "main_effect PoolJoin s =
     (if process (pool (the_output s)) = Finished then Some s else None)"
| "main_effect (CancelJoinThread FramesQueue) s =
     Some (s\<lparr>the_output := (the_output s)\<lparr>in_queue := cancel_join_thread (in_queue (the_output s))\<rparr>\<rparr>)"
| "main_effect (CancelJoinThread InferencedQueue) s =
     Some (s\<lparr>the_output := (the_output s)\<lparr>out_queue := cancel_join_thread (out_queue (the_output s))\<rparr>\<rparr>)"
| "main_effect ReassemblerStop s = Some (s\<lparr>reassembler_running := False\<rparr>)"
| "main_effect FlusherStop s = Some (s\<lparr>flusher_running := False\<rparr>)"
| "main_effect _ s = Some s"

definition main_step :: "system \<Rightarrow> system option" where
  "main_step s =
     (case main_todo s of
        [] \<Rightarrow> None
      | e # es \<Rightarrow>
          (case main_effect e s of
             None \<Rightarrow> None
           | Some s' \<Rightarrow> Some (s'\<lparr>main_todo := es, main_done := main_done s @ [e]\<rparr>)))"

text \<open>
  \<open>WorkerPool.run\<close> (lines 43 to 50), one step at a time: create and start
  \<open>pool_size\<close> workers (\<open>range\<close> of a negative number is empty), poll the event, then join
  the workers in order; joining a worker blocks until it has exited.
\<close>

definition pool_step :: "system \<Rightarrow> system option" where
  "pool_step s =
     (let p = pool (the_output s) in
      case process p of
        NotStarted \<Rightarrow> None
      | Spawning \<Rightarrow>
          Some (s\<lparr>pool_workers := replicate (nat (pool_size p)) Pulling,
                 the_output := (the_output s)\<lparr>pool := p\<lparr>process := Polling\<rparr>\<rparr>\<rparr>)
      | Polling \<Rightarrow>
          (if event_stopper p
           then Some (s\<lparr>the_output := (the_output s)\<lparr>pool := p\<lparr>process := Joining 0\<rparr>\<rparr>\<rparr>)
           else Some s)
      | Joining i \<Rightarrow>
          (if i < length (pool_workers s) then
             (if pool_workers s ! i = Exited
              then Some (s\<lparr>the_output := (the_output s)\<lparr>pool := p\<lparr>process := Joining (Suc i)\<rparr>\<rparr>\<rparr>)
              else None)
           else Some (s\<lparr>the_output := (the_output s)\<lparr>pool := p\<lparr>process := Finished\<rparr>\<rparr>\<rparr>))
      | Finished \<Rightarrow> None)"

text \<open>
  Modelled from the spec: one step of worker \<open>i\<close>, following the loop of section 4.2 (the
  class \<open>InferenceWorker\<close> is not among the sources). Pulling blocks on an empty queue; a
  worker that holds a task exits if the stop event is set, and otherwise pushes the
  result of the task and goes back to pulling.
\<close>

definition worker_step :: "nat \<Rightarrow> system \<Rightarrow> system option" where
  "worker_step i s =
     (if i < length (pool_workers s) then
        (case pool_workers s ! i of
           Pulling \<Rightarrow>
             (case items (in_queue (the_output s)) of
                [] \<Rightarrow> None
              | t # ts \<Rightarrow>
                  Some (s\<lparr>pool_workers := (pool_workers s)[i := Holding t],
                         the_output := (the_output s)\<lparr>in_queue := (in_queue (the_output s))\<lparr>items := ts\<rparr>\<rparr>\<rparr>))
         | Holding t \<Rightarrow>
             (if event_stopper (pool (the_output s))
              then Some (s\<lparr>pool_workers := (pool_workers s)[i := Exited]\<rparr>)
              else Some (s\<lparr>pool_workers := (pool_workers s)[i := Pulling],
                          the_output := (the_output s)\<lparr>out_queue :=
                             put (out_queue (the_output s)) (InferenceResult t)\<rparr>\<rparr>))
         | Exited \<Rightarrow> None)
      else None)"

text \<open>
  Modelled from the spec: one sampling by the Flusher, which runs from its \<open>start\<close> to
  its \<open>stop\<close> (section 4.3: \<open>stop()\<close> terminates the monitoring activity).
\<close>

definition flusher_step :: "system \<Rightarrow> system option" where
  "flusher_step s =
     (if flusher_running s
      then Some (s\<lparr>the_output := (the_output s)\<lparr>in_queue :=
                     Flusher_sample (flusher_threshold s) (in_queue (the_output s))\<rparr>\<rparr>)
      else None)"

text \<open>
  The encoder hands one chunk to \<open>output.write\<close>. A run in which \<open>write\<close> raises is not
  followed further.
\<close>

definition camera_step :: "bytes \<Rightarrow> system \<Rightarrow> system option" where
  "camera_step buf s =
     (if recording s then
        (case DistributeFramesAndInfer_write (the_output s) buf of
           Inl e \<Rightarrow> None
         | Inr self' \<Rightarrow> Some (s\<lparr>the_output := self'\<rparr>))
      else None)"

text \<open>
  Modelled from the spec: the reassembler (\<open>BroadcastReassembled\<close>, not among the sources)
  is the one consumer of the result queue; it takes the oldest result while it runs.
\<close>

definition reassembler_step :: "system \<Rightarrow> system option" where
  "reassembler_step s =
     (if reassembler_running s then
        (case items (out_queue (the_output s)) of
           [] \<Rightarrow> None
         | r # rs \<Rightarrow>
             Some (s\<lparr>the_output := (the_output s)\<lparr>out_queue := (out_queue (the_output s))\<lparr>items := rs\<rparr>\<rparr>\<rparr>))
      else None)"

datatype actor = Main | Pool | Worker nat | Flusher | Camera bytes | Reassembler

fun step :: "actor \<Rightarrow> system \<Rightarrow> system option" where
  "step Main s = main_step s"
| "step Pool s = pool_step s"
| "step (Worker i) s = worker_step i s"
| "step Flusher s = flusher_step s"
| "step (Camera buf) s = camera_step buf s"
| "step Reassembler s = reassembler_step s"

text \<open>A schedule is the order in which the activities take their steps.\<close>

fun run :: "actor list \<Rightarrow> system \<Rightarrow> system option" where
  "run [] s = Some s"
| "run (a # as) s = (case step a s of None \<Rightarrow> None | Some s' \<Rightarrow> run as s')"

section \<open>Example inputs\<close>

definition example_config :: config where
  "example_config =
     \<lparr>video_source = \<lparr>sensor_mode = 5, resolution = (480, 270), framerate = 30\<rparr>,
      broadcaster = ''broadcaster'',
      inferencing_pool = \<lparr>cfg_workers = 1, cfg_pick_every_nth_frame = 1\<rparr>,
      inferencing_worker = ''worker'',
      general = \<lparr>frame_count_threshold = 1, output_file = ''video.h264''\<rparr>\<rparr>"

definition example_pool_config :: pool_config where
  "example_pool_config = \<lparr>cfg_workers = 2, cfg_pick_every_nth_frame = 3\<rparr>"

text \<open>A frame: a chunk that begins with the marker.\<close>

definition example_frame :: bytes where
  "example_frame = [0xFF, 0xD8, 0x01]"

text \<open>The segmenter of \<open>example_config\<close> after it has been handed \<open>example_frame\<close>.\<close>

definition example_segmenter :: DistributeFramesAndInfer where
  "example_segmenter =
     \<lparr>frame_num = 1,
      in_queue = \<lparr>items = [\<lparr>task_frame_num = 0, jpeg = example_frame\<rparr>], joincancelled = False\<rparr>,
      out_queue = \<lparr>items = [], joincancelled = False\<rparr>,
      workers = 1,
      pick_every_nth_frame = 1,
      pool = \<lparr>event_stopper = False, pool_size = 1, process = Spawning\<rparr>\<rparr>"

text \<open>
  The main thread starts everything, the camera delivers three frames, and the main
  thread, signalled at once, stops the recording and sets the pool's stop event.
\<close>

definition schedule_to_pool_stop :: "actor list" where
  "schedule_to_pool_stop =
     replicate 12 Main @ replicate 3 (Camera example_frame) @ replicate 4 Main"

text \<open>
  A run up to the return of \<open>pool.join()\<close>: one frame is delivered, the pool creates
  its worker, the worker pulls the frame, the main thread stops the recording and sets
  the stop event, the worker sees it and exits, the pool joins the worker and ends, and
  the main thread's join returns. Five calls of \<open>main\<close> remain after it.
\<close>

definition schedule_to_join :: "actor list" where
  "schedule_to_join =
     replicate 12 Main @ [Camera example_frame, Pool, Worker 0] @ replicate 4 Main
       @ [Worker 0, Pool, Pool, Pool, Main]"

section \<open>Invariants of the running system\<close>

text \<open>The frame numbers waiting on the frames queue, oldest first.\<close>

definition frames_queued :: "system \<Rightarrow> int list" where
  "frames_queued s = map task_frame_num (items (in_queue (the_output s)))"

text \<open>The main thread works through the calls of \<open>main\<close>, in their order.\<close>

definition program_invariant :: "config \<Rightarrow> nat \<Rightarrow> system \<Rightarrow> bool" where
  "program_invariant cfg k s = (main_done s @ main_todo s = main_events cfg k)"

text \<open>
  The pool process has ended only when every worker has exited, and while it joins
  worker \<open>i\<close> the workers before \<open>i\<close> have exited.
\<close>

definition workers_invariant :: "system \<Rightarrow> bool" where
  "workers_invariant s =
     ((process (pool (the_output s)) = Finished \<longrightarrow>
         (\<forall>j<length (pool_workers s). pool_workers s ! j = Exited))
      \<and> (\<forall>i. process (pool (the_output s)) = Joining i \<longrightarrow>
           i \<le> length (pool_workers s) \<and> (\<forall>j<i. pool_workers s ! j = Exited)))"

text \<open>What has been stopped stays stopped.\<close>

definition stopped_invariant :: "system \<Rightarrow> bool" where
  "stopped_invariant s =
     ((PoolJoin \<in> set (main_done s) \<longrightarrow> process (pool (the_output s)) = Finished)
      \<and> (FlusherStop \<in> set (main_done s) \<longrightarrow> \<not> flusher_running s)
      \<and> (StopRecording 1 \<in> set (main_done s) \<longrightarrow> \<not> recording s))"

definition teardown_invariant :: "config \<Rightarrow> nat \<Rightarrow> system \<Rightarrow> bool" where
  "teardown_invariant cfg k s =
     (program_invariant cfg k s \<and> workers_invariant s \<and> stopped_invariant s)"

section \<open>The frame segmenter\<close>

lemma write_marker:
  assumes "startswith buf SOI" and "pick_every_nth_frame s \<noteq> 0"
  shows "DistributeFramesAndInfer_write s buf =
     Inr (s\<lparr>frame_num := frame_num s + 1,
            in_queue := (in_queue s)\<lparr>items := items (in_queue s) @
               (if frame_num s mod pick_every_nth_frame s = 0
                then [\<lparr>task_frame_num = frame_num s, jpeg = buf\<rparr>] else [])\<rparr>\<rparr>)"
  using assms by (simp add: DistributeFramesAndInfer_write_def put_def)

lemma write_other:
  assumes "\<not> startswith buf SOI"
  shows "DistributeFramesAndInfer_write s buf = Inr s"
  using assms by (simp add: DistributeFramesAndInfer_write_def)

lemma writes_markers:
  assumes "\<forall>buf\<in>set bufs. startswith buf SOI" and "pick_every_nth_frame s \<noteq> 0"
    and "frame_num s = int k"
  shows "writes s bufs =
     Inr (s\<lparr>frame_num := int (k + length bufs),
            in_queue := (in_queue s)\<lparr>items := items (in_queue s) @
               kept_frames (pick_every_nth_frame s) k bufs\<rparr>\<rparr>)"
  using assms
proof (induction bufs arbitrary: s k)
  case Nil
  then show ?case by (simp add: kept_frames_def)
next
  case (Cons buf bufs)
  let ?s1 = "s\<lparr>frame_num := frame_num s + 1,
            in_queue := (in_queue s)\<lparr>items := items (in_queue s) @
               (if frame_num s mod pick_every_nth_frame s = 0
                then [\<lparr>task_frame_num = frame_num s, jpeg = buf\<rparr>] else [])\<rparr>\<rparr>"
  have w: "DistributeFramesAndInfer_write s buf = Inr ?s1"
    using Cons.prems by (simp add: write_marker)
  have "writes ?s1 bufs = Inr (?s1\<lparr>frame_num := int (Suc k + length bufs),
            in_queue := (in_queue ?s1)\<lparr>items := items (in_queue ?s1) @
               kept_frames (pick_every_nth_frame ?s1) (Suc k) bufs\<rparr>\<rparr>)"
    by (rule Cons.IH) (use Cons.prems in auto)
  then show ?case using w Cons.prems(3)
    by (simp add: kept_frames_def)
qed

lemma frame_nums_kept:
  "map task_frame_num (kept_frames n k bufs) =
     map int (filter (\<lambda>i. int i mod n = 0) [k..<k + length bufs])"
proof -
  have "map task_frame_num (kept_frames n k bufs) =
      map int (map fst (filter ((\<lambda>i. int i mod n = 0) \<circ> fst) (enumerate k bufs)))"
    by (simp add: kept_frames_def comp_def case_prod_unfold)
  also have "\<dots> = map int (filter (\<lambda>i. int i mod n = 0) (map fst (enumerate k bufs)))"
    by (simp only: filter_map)
  also have "map fst (enumerate k bufs) = [k..<k + length bufs]"
    by simp
  finally show ?thesis .
qed

lemma sorted_frame_nums_kept:
  "sorted_wrt (<) (map task_frame_num (kept_frames n k bufs))"
proof -
  have "sorted_wrt (<) (filter (\<lambda>i. int i mod n = 0) [k..<k + length bufs])"
    by (rule sorted_wrt_filter) (simp add: strict_sorted_iff[symmetric])
  then have "sorted_wrt (<) (map int (filter (\<lambda>i. int i mod n = 0) [k..<k + length bufs]))"
    by (simp add: sorted_wrt_map)
  then show ?thesis by (simp only: frame_nums_kept)
qed

lemma upt_10: "[0..<10] = [0, 1, 2, 3, 4, 5, 6, 7, 8, 9::nat]"
  by code_simp

lemma init_fields:
  "frame_num (DistributeFramesAndInfer_init pool_cfg) = 0"
  "items (in_queue (DistributeFramesAndInfer_init pool_cfg)) = []"
  "pick_every_nth_frame (DistributeFramesAndInfer_init pool_cfg) =
     cfg_pick_every_nth_frame pool_cfg"
  by (simp_all add: DistributeFramesAndInfer_init_def Queue_new_def)

text \<open>
  C1. With a decimation factor of at least 1, a fresh segmenter that is handed chunks all
  beginning with the marker accepts every one of them, and its queue then holds exactly
  the chunks whose index (from 0) is a multiple of the factor, each numbered with its
  index, in increasing order of number. With factor 3 and ten chunks the numbers on the
  queue are 0, 3, 6, 9: four tasks, six frames dropped.
\<close>

theorem decimation_keeps_multiples:
  assumes "1 \<le> cfg_pick_every_nth_frame pool_cfg"
    and "\<forall>buf\<in>set bufs. startswith buf SOI"
  shows "\<exists>s'. writes (DistributeFramesAndInfer_init pool_cfg) bufs = Inr s'
     \<and> items (in_queue s') = kept_frames (cfg_pick_every_nth_frame pool_cfg) 0 bufs
     \<and> sorted_wrt (<) (map task_frame_num (items (in_queue s')))
     \<and> (cfg_pick_every_nth_frame pool_cfg = 3 \<and> length bufs = 10 \<longrightarrow>
          map task_frame_num (items (in_queue s')) = [0, 3, 6, 9])"
proof -
  let ?s = "DistributeFramesAndInfer_init pool_cfg"
  have n: "pick_every_nth_frame ?s \<noteq> 0" and k: "frame_num ?s = int 0"
    using assms(1) by (simp_all add: init_fields)
  note w = writes_markers [OF assms(2) n k]
  have ten: "map int (filter (\<lambda>i. int i mod 3 = 0) [0..<10]) = [0, 3, 6, 9]"
    by (simp add: upt_10)
  show ?thesis
    using w ten sorted_frame_nums_kept [of "cfg_pick_every_nth_frame pool_cfg" 0 bufs]
    by (auto simp: frame_nums_kept init_fields)
qed

theorem decimation_keeps_multiples_witness:
  "1 \<le> cfg_pick_every_nth_frame example_pool_config
   \<and> list_all (\<lambda>buf. startswith buf SOI) (replicate 10 example_frame)
   \<and> (\<exists>s'. writes (DistributeFramesAndInfer_init example_pool_config)
              (replicate 10 example_frame) = Inr s'
         \<and> map task_frame_num (items (in_queue s')) = [0, 3, 6, 9])"
proof -
  have a: "1 \<le> cfg_pick_every_nth_frame example_pool_config"
    by (simp add: example_pool_config_def)
  have b: "\<forall>buf\<in>set (replicate 10 example_frame). startswith buf SOI"
    by (simp add: startswith_def SOI_def example_frame_def)
  have c: "cfg_pick_every_nth_frame example_pool_config = 3
      \<and> length (replicate 10 example_frame) = 10"
    by (simp add: example_pool_config_def)
  from decimation_keeps_multiples [OF a b]
  obtain s' where w: "writes (DistributeFramesAndInfer_init example_pool_config)
        (replicate 10 example_frame) = Inr s'"
    and m: "cfg_pick_every_nth_frame example_pool_config = 3
        \<and> length (replicate 10 example_frame) = 10
      \<longrightarrow> map task_frame_num (items (in_queue s')) = [0, 3, 6, 9]"
    by (elim exE conjE)
  from m c have "map task_frame_num (items (in_queue s')) = [0, 3, 6, 9]"
    by (rule mp)
  with w have "\<exists>s'. writes (DistributeFramesAndInfer_init example_pool_config)
        (replicate 10 example_frame) = Inr s'
      \<and> map task_frame_num (items (in_queue s')) = [0, 3, 6, 9]"
    by (intro exI [of _ s'] conjI)
  with a b show ?thesis by (simp add: list_all_iff)
qed

text \<open>
  C5, as the specification states it, fails: a chunk without the marker is not appended
  to any buffer. After one frame the queue holds that frame's bytes; a following chunk
  \<open>02 03\<close> without the marker leaves the whole object as it was, the frame's bytes
  included.
\<close>

theorem continuation_not_appended_counterexample:
  "writes (DistributeFramesAndInfer_init (inferencing_pool example_config)) [example_frame]
     = Inr example_segmenter
   \<and> \<not> startswith [0x02, 0x03] SOI
   \<and> DistributeFramesAndInfer_write example_segmenter [0x02, 0x03] = Inr example_segmenter
   \<and> map jpeg (items (in_queue example_segmenter)) = [[0xFF, 0xD8, 0x01]]
   \<and> [0xFF, 0xD8, 0x01] \<noteq> [0xFF, 0xD8, 0x01, 0x02, 0x03 :: byte]"
  by (simp add: DistributeFramesAndInfer_write_def DistributeFramesAndInfer_init_def
      example_config_def example_frame_def example_segmenter_def startswith_def SOI_def
      put_def Queue_new_def WorkerPool_start_def WorkerPool_init_def)

text \<open>
  C5, amended. A chunk that does not begin with the marker raises no error and changes
  nothing: it is dropped, the counter keeps its value and nothing is put on the queue.
  This holds for every decimation factor, zero included.
\<close>

theorem chunk_without_marker_ignored:
  assumes "\<not> startswith buf SOI"
  shows "DistributeFramesAndInfer_write s buf = Inr s"
  using assms by (rule write_other)

theorem chunk_without_marker_ignored_witness:
  "\<not> startswith [0x02, 0x03] SOI
   \<and> DistributeFramesAndInfer_write example_segmenter [0x02, 0x03] = Inr example_segmenter"
proof -
  have a: "\<not> startswith [0x02, 0x03] SOI"
    by (simp add: startswith_def SOI_def)
  show ?thesis
    using chunk_without_marker_ignored [OF a, of example_segmenter] a by simp
qed

text \<open>
  C6, as the specification states it, fails: the code tests the counter before it
  increments it. On a fresh segmenter with factor 3 the code keeps the first frame, as
  number 0; incrementing first would test 1 and drop it.
\<close>

theorem increment_before_test_counterexample:
  "map task_frame_num (items (in_queue (projr
      (DistributeFramesAndInfer_write (DistributeFramesAndInfer_init example_pool_config)
         example_frame)))) = [0]
   \<and> map task_frame_num (items (in_queue (projr
      (write_increments_first (DistributeFramesAndInfer_init example_pool_config)
         example_frame)))) = []
   \<and> DistributeFramesAndInfer_write (DistributeFramesAndInfer_init example_pool_config)
        example_frame
     \<noteq> write_increments_first (DistributeFramesAndInfer_init example_pool_config)
        example_frame"
  by (simp add: DistributeFramesAndInfer_write_def write_increments_first_def
      DistributeFramesAndInfer_init_def example_pool_config_def example_frame_def
      startswith_def SOI_def put_def Queue_new_def Let_def)

text \<open>
  C6, amended. When a chunk begins with the marker and the factor is not zero, the
  segmenter tests the counter as it stands, before the increment: if it is a multiple of
  the factor, a task with that number and the chunk's bytes is put at the end of the
  queue, otherwise the frame is dropped; then the counter is incremented. Nothing else
  of the object changes.
\<close>

theorem test_before_increment:
  assumes "startswith buf SOI" and "pick_every_nth_frame s \<noteq> 0"
  shows "\<exists>s'. DistributeFramesAndInfer_write s buf = Inr s'
     \<and> items (in_queue s') =
         items (in_queue s) @
           (if frame_num s mod pick_every_nth_frame s = 0
            then [\<lparr>task_frame_num = frame_num s, jpeg = buf\<rparr>] else [])
     \<and> frame_num s' = frame_num s + 1
     \<and> s'\<lparr>frame_num := frame_num s, in_queue := in_queue s\<rparr> = s"
  using write_marker [OF assms] by simp

theorem test_before_increment_witness:
  "startswith example_frame SOI \<and> pick_every_nth_frame example_segmenter \<noteq> 0
   \<and> (\<exists>s'. DistributeFramesAndInfer_write example_segmenter example_frame = Inr s'
         \<and> map task_frame_num (items (in_queue s')) = [0, 1]
         \<and> frame_num s' = 2)"
proof -
  have a: "startswith example_frame SOI"
    by (simp add: startswith_def SOI_def example_frame_def)
  have b: "pick_every_nth_frame example_segmenter \<noteq> 0"
    by (simp add: example_segmenter_def)
  show ?thesis
    using test_before_increment [OF a b] a b by (auto simp: example_segmenter_def)
qed

lemma write_numbered:
  assumes "pick_every_nth_frame s \<noteq> 0"
  shows "\<exists>s'. DistributeFramesAndInfer_write s buf = Inr s'
     \<and> pick_every_nth_frame s' = pick_every_nth_frame s
     \<and> frame_num s' = frame_num s + (if startswith buf SOI then 1 else 0)
     \<and> (numbered_in_order s \<longrightarrow> numbered_in_order s')"
proof (cases "startswith buf SOI")
  case True
  show ?thesis
    unfolding write_marker [OF True assms] using True
    by (auto simp: numbered_in_order_def sorted_wrt_append)
next
  case False
  then show ?thesis by (simp add: write_other)
qed

lemma writes_numbered:
  assumes "pick_every_nth_frame s \<noteq> 0"
  shows "\<exists>s'. writes s bufs = Inr s'
     \<and> pick_every_nth_frame s' = pick_every_nth_frame s
     \<and> frame_num s' = frame_num s + int (length (filter (\<lambda>buf. startswith buf SOI) bufs))
     \<and> (numbered_in_order s \<longrightarrow> numbered_in_order s')"
  using assms
proof (induction bufs arbitrary: s)
  case Nil
  then show ?case by simp
next
  case (Cons buf bufs)
  from write_numbered [OF Cons.prems, of buf]
  obtain s1 where w: "DistributeFramesAndInfer_write s buf = Inr s1"
    and p: "pick_every_nth_frame s1 = pick_every_nth_frame s"
    and f: "frame_num s1 = frame_num s + (if startswith buf SOI then 1 else 0)"
    and n: "numbered_in_order s \<longrightarrow> numbered_in_order s1"
    by (elim exE conjE)
  from p Cons.prems have "pick_every_nth_frame s1 \<noteq> 0" by simp
  from Cons.IH [OF this]
  obtain s' where w': "writes s1 bufs = Inr s'"
    and p': "pick_every_nth_frame s' = pick_every_nth_frame s1"
    and f': "frame_num s' = frame_num s1 + int (length (filter (\<lambda>buf. startswith buf SOI) bufs))"
    and n': "numbered_in_order s1 \<longrightarrow> numbered_in_order s'"
    by (elim exE conjE)
  show ?case using w w' p p' f f' n n' by auto
qed

lemma init_numbered: "numbered_in_order (DistributeFramesAndInfer_init pool_cfg)"
  by (simp add: numbered_in_order_def init_fields)

text \<open>
  C9. With a decimation factor other than zero, the counter of a fresh segmenter is 0;
  after any sequence of chunks it equals the number of chunks that began with the
  marker, whether they were kept or dropped; one more chunk adds exactly one if it
  begins with the marker and nothing otherwise, so the counter never decreases and is
  never reset; and the frame numbers on the queue increase strictly in the order in which
  the tasks were put.
\<close>

theorem frame_num_counts_every_frame:
  assumes "cfg_pick_every_nth_frame pool_cfg \<noteq> 0"
  shows "frame_num (DistributeFramesAndInfer_init pool_cfg) = 0
     \<and> (\<exists>s'. writes (DistributeFramesAndInfer_init pool_cfg) bufs = Inr s'
          \<and> frame_num s' = int (length (filter (\<lambda>buf. startswith buf SOI) bufs))
          \<and> sorted_wrt (<) (map task_frame_num (items (in_queue s')))
          \<and> (\<exists>s''. DistributeFramesAndInfer_write s' buf = Inr s''
                \<and> frame_num s'' = frame_num s' + (if startswith buf SOI then 1 else 0)
                \<and> frame_num s' \<le> frame_num s''))"
proof -
  let ?s = "DistributeFramesAndInfer_init pool_cfg"
  have n: "pick_every_nth_frame ?s \<noteq> 0" using assms by (simp add: init_fields)
  from writes_numbered [OF n, of bufs]
  obtain s' where w: "writes ?s bufs = Inr s'"
    and p: "pick_every_nth_frame s' = pick_every_nth_frame ?s"
    and f: "frame_num s' = frame_num ?s + int (length (filter (\<lambda>buf. startswith buf SOI) bufs))"
    and o: "numbered_in_order ?s \<longrightarrow> numbered_in_order s'"
    by (elim exE conjE)
  from p n have "pick_every_nth_frame s' \<noteq> 0" by simp
  from write_numbered [OF this, of buf]
  obtain s'' where w2: "DistributeFramesAndInfer_write s' buf = Inr s''"
    and f2: "frame_num s'' = frame_num s' + (if startswith buf SOI then 1 else 0)"
    by (elim exE conjE)
  have "sorted_wrt (<) (map task_frame_num (items (in_queue s')))"
    using o init_numbered by (simp add: numbered_in_order_def)
  then show ?thesis using w f w2 f2 by (auto simp: init_fields)
qed

theorem frame_num_counts_every_frame_witness:
  "cfg_pick_every_nth_frame example_pool_config \<noteq> 0
   \<and> (\<exists>s'. writes (DistributeFramesAndInfer_init example_pool_config)
              [example_frame, [0x02, 0x03], example_frame] = Inr s'
         \<and> frame_num s' = 2
         \<and> (\<exists>s''. DistributeFramesAndInfer_write s' example_frame = Inr s''
               \<and> frame_num s'' = 3))"
proof -
  have a: "cfg_pick_every_nth_frame example_pool_config \<noteq> 0"
    by (simp add: example_pool_config_def)
  have m: "startswith example_frame SOI" "\<not> startswith [0x02, 0x03] SOI"
    by (simp_all add: startswith_def SOI_def example_frame_def)
  show ?thesis
    using frame_num_counts_every_frame [OF a,
        of "[example_frame, [0x02, 0x03], example_frame]" example_frame] a m
    by auto
qed

section \<open>The load shedder\<close>

lemma shed_drop:
  assumes "0 \<le> threshold"
  shows "shed threshold q = drop (length q - nat threshold) q"
proof (induction q)
  case Nil
  show ?case by simp
next
  case (Cons x xs)
  show ?case
  proof (cases "int (length (x # xs)) > threshold")
    case True
    then have "length (x # xs) - nat threshold = Suc (length xs - nat threshold)"
      using assms by (simp add: Suc_diff_le nat_le_iff)
    with True Cons.IH show ?thesis by simp
  next
    case False
    then have "length (x # xs) - nat threshold = 0"
      using assms by simp
    with False show ?thesis by simp
  qed
qed

text \<open>
  C4. For a threshold that is not negative, one sampling by the Flusher, with nobody else
  touching the queue, leaves at most threshold-many entries: the newest ones, the oldest
  having been discarded. With threshold 5 and 20 entries, the 5 entries put last remain.
\<close>

theorem flusher_keeps_newest:
  assumes "0 \<le> threshold"
  shows "int (length (items (Flusher_sample threshold q))) \<le> threshold
     \<and> items (Flusher_sample threshold q) = drop (length (items q) - nat threshold) (items q)
     \<and> (threshold = 5 \<and> length (items q) = 20 \<longrightarrow>
          items (Flusher_sample threshold q) = drop 15 (items q)
          \<and> length (items (Flusher_sample threshold q)) = 5)"
  using assms by (auto simp: Flusher_sample_def shed_drop)

theorem flusher_keeps_newest_witness:
  "(0::int) \<le> 5
   \<and> items (Flusher_sample 5 \<lparr>items = [1, 2, 3, 4, 5, 6, 7, 8, 9, 10, 11, 12, 13, 14, 15,
        16, 17, 18, 19, 20 :: nat], joincancelled = False\<rparr>) = [16, 17, 18, 19, 20]"
proof -
  have a: "(0::int) \<le> 5" by simp
  show ?thesis
    using flusher_keeps_newest [OF a, of "\<lparr>items = [1, 2, 3, 4, 5, 6, 7, 8, 9, 10, 11, 12,
        13, 14, 15, 16, 17, 18, 19, 20 :: nat], joincancelled = False\<rparr>"]
    by simp
qed

section \<open>Stopping\<close>

text \<open>
  C8. Setting the pool's stop event twice is the same as setting it once. On an object
  whose pool was started and whose pool process ends, \<open>stop\<close> returns without an error;
  and whenever \<open>stop\<close> has returned, a second \<open>stop\<close> returns as well, without an error,
  in the same state: the event is set, the process has ended, both queues have their
  join thread cancelled, and the second join does not wait.
\<close>

theorem stop_idempotent:
  "WorkerPool_stop (WorkerPool_stop p) = WorkerPool_stop p
   \<and> (process (pool s) \<noteq> NotStarted \<and> ends \<longrightarrow>
        (\<exists>s'. DistributeFramesAndInfer_stop ends s = Some (Inr s')))
   \<and> (\<forall>s'. DistributeFramesAndInfer_stop ends s = Some (Inr s') \<longrightarrow>
        DistributeFramesAndInfer_stop ends' s' = Some (Inr s'))"
  by (auto simp: DistributeFramesAndInfer_stop_def Process_join_def WorkerPool_stop_def
      cancel_join_thread_def split: if_splits)

theorem stop_idempotent_witness:
  "process (pool (DistributeFramesAndInfer_init example_pool_config)) \<noteq> NotStarted
   \<and> (\<exists>s'. DistributeFramesAndInfer_stop True (DistributeFramesAndInfer_init example_pool_config)
             = Some (Inr s')
         \<and> DistributeFramesAndInfer_stop False s' = Some (Inr s')
         \<and> process (pool s') = Finished \<and> event_stopper (pool s'))"
proof -
  have a: "process (pool (DistributeFramesAndInfer_init example_pool_config)) \<noteq> NotStarted"
    by (simp add: DistributeFramesAndInfer_init_def WorkerPool_start_def)
  from stop_idempotent [of "pool (DistributeFramesAndInfer_init example_pool_config)"
      "DistributeFramesAndInfer_init example_pool_config" True False] a
  obtain s' where w: "DistributeFramesAndInfer_stop True
      (DistributeFramesAndInfer_init example_pool_config) = Some (Inr s')"
    and i: "DistributeFramesAndInfer_stop False s' = Some (Inr s')"
    by blast
  from w have "process (pool s') = Finished \<and> event_stopper (pool s')"
    by (auto simp: DistributeFramesAndInfer_stop_def Process_join_def WorkerPool_stop_def
        split: if_splits)
  with a w i show ?thesis by blast
qed

section \<open>main\<close>

text \<open>
  C10. When \<open>open\<close> or \<open>json.load\<close> raises, \<open>main\<close> installs its signal handlers, logs
  the error and returns, whatever the signal and the pool would do: no pool, queue,
  reassembler, Flusher or camera is created or started.
\<close>

theorem config_failure_starts_nothing:
  "main (Unopenable msg) kill_after pool_ends = Some [SignalHandlers, LogCritical msg]
   \<and> main (Unparsable msg) kill_after pool_ends = Some [SignalHandlers, LogCritical msg]"
  by (simp add: main_def)

lemma set_wait_loop: "set (wait_loop k) \<subseteq> set wait_round"
  by (induction k) (auto simp: wait_loop_def)

section \<open>The running system\<close>

lemma prefix_of_split:
  assumes "xs @ e # ys = A @ B" and "e \<notin> set B"
  shows "set xs \<subseteq> set A"
proof -
  from assms(1) obtain us
    where "(xs = A @ us \<and> us @ e # ys = B) \<or> (xs @ us = A \<and> e # ys = us @ B)"
    by (auto simp only: append_eq_append_conv2)
  then show ?thesis
  proof
    assume "xs = A @ us \<and> us @ e # ys = B"
    then have "e \<in> set B" by auto
    with assms(2) show ?thesis by simp
  next
    assume "xs @ us = A \<and> e # ys = us @ B"
    then have "set A = set xs \<union> set us" by auto
    then show ?thesis by simp
  qed
qed

lemma start_event_prefix:
  assumes "done @ e # es = main_events cfg k"
    and "e \<notin> set wait_round" and "e \<notin> set teardown"
  shows "set done \<subseteq> set (SignalHandlers # startup cfg)"
proof -
  have "e \<notin> set (wait_loop k @ teardown)"
    using assms(2,3) set_wait_loop [of k] by auto
  moreover have "done @ e # es = (SignalHandlers # startup cfg) @ (wait_loop k @ teardown)"
    using assms(1) by (simp add: main_events_def)
  ultimately show ?thesis by (rule prefix_of_split [rotated])
qed

lemma init_invariant: "teardown_invariant cfg k (system_init cfg k)"
  by (simp add: teardown_invariant_def program_invariant_def workers_invariant_def
      stopped_invariant_def system_init_def WorkerPool_init_def)

lemma write_keeps_pool:
  "DistributeFramesAndInfer_write self buf = Inr self' \<Longrightarrow> pool self' = pool self"
  by (auto simp: DistributeFramesAndInfer_write_def put_def split: if_splits)

lemma worker_step_frame:
  assumes "worker_step i s = Some s'"
  shows "main_done s' = main_done s" and "main_todo s' = main_todo s"
    and "pool (the_output s') = pool (the_output s)"
    and "flusher_running s' = flusher_running s" and "recording s' = recording s"
    and "length (pool_workers s') = length (pool_workers s)"
    and "i < length (pool_workers s)" and "pool_workers s ! i \<noteq> Exited"
    and "pool_workers s ! j = Exited \<Longrightarrow> pool_workers s' ! j = Exited"
  using assms
  by (auto simp: worker_step_def nth_list_update
      split: worker.splits list.splits if_splits)

lemma pool_step_frame:
  assumes "pool_step s = Some s'"
  shows "main_done s' = main_done s" and "main_todo s' = main_todo s"
    and "flusher_running s' = flusher_running s" and "recording s' = recording s"
  using assms
  by (auto simp: pool_step_def Let_def split: proc.splits if_splits)

lemma pool_step_process:
  assumes "pool_step s = Some s'"
  shows "process (pool (the_output s')) = Finished \<longrightarrow>
           (\<exists>i. process (pool (the_output s)) = Joining i \<and> length (pool_workers s) \<le> i)"
    and "process (pool (the_output s')) = Joining n \<longrightarrow>
           (process (pool (the_output s)) = Polling \<and> n = 0)
           \<or> (\<exists>i. n = Suc i \<and> process (pool (the_output s)) = Joining i
                 \<and> i < length (pool_workers s) \<and> pool_workers s ! i = Exited)"
    and "process (pool (the_output s)) \<noteq> Spawning \<longrightarrow> pool_workers s' = pool_workers s"
    and "process (pool (the_output s)) \<noteq> Finished"
  using assms
  by (auto simp: pool_step_def Let_def split: proc.splits if_splits)


lemma flusher_step_frame:
  assumes "flusher_step s = Some s'"
  shows "main_done s' = main_done s" and "main_todo s' = main_todo s"
    and "pool (the_output s') = pool (the_output s)"
    and "flusher_running s' = flusher_running s" and "recording s' = recording s"
    and "pool_workers s' = pool_workers s" and "flusher_running s"
    and "out_queue (the_output s') = out_queue (the_output s)"
  using assms by (auto simp: flusher_step_def split: if_splits)

lemma reassembler_step_frame:
  assumes "reassembler_step s = Some s'"
  shows "main_done s' = main_done s" and "main_todo s' = main_todo s"
    and "pool (the_output s') = pool (the_output s)"
    and "flusher_running s' = flusher_running s" and "recording s' = recording s"
    and "pool_workers s' = pool_workers s"
    and "in_queue (the_output s') = in_queue (the_output s)"
    and "items (out_queue (the_output s')) = drop 1 (items (out_queue (the_output s)))"
  using assms by (auto simp: reassembler_step_def split: if_splits list.splits)

lemma camera_step_frame:
  assumes "camera_step buf s = Some s'"
  shows "main_done s' = main_done s" and "main_todo s' = main_todo s"
    and "pool (the_output s') = pool (the_output s)"
    and "flusher_running s' = flusher_running s" and "recording s' = recording s"
    and "pool_workers s' = pool_workers s" and "recording s"
  using assms
  by (auto simp: camera_step_def split: if_splits sum.splits dest: write_keeps_pool)

lemma main_effect_frame:
  assumes "main_effect e s = Some s'"
  shows "main_done s' = main_done s" and "main_todo s' = main_todo s"
    and "pool_workers s' = pool_workers s"
    and "process (pool (the_output s')) = process (pool (the_output s))
         \<or> (\<exists>pool_cfg. e = OutputCreated pool_cfg) \<and> process (pool (the_output s')) = Spawning"
    and "flusher_running s' \<longrightarrow> flusher_running s \<or> (\<exists>threshold. e = FlusherStart threshold)"
    and "recording s' \<longrightarrow> recording s \<or> e = StartRecording 1"
    and "e = PoolJoin \<longrightarrow> process (pool (the_output s)) = Finished"
    and "e = FlusherStop \<longrightarrow> \<not> flusher_running s'"
    and "e = StopRecording 1 \<longrightarrow> \<not> recording s'"
  using assms
  by (induction e s rule: main_effect.induct)
     (auto simp: DistributeFramesAndInfer_init_def WorkerPool_start_def WorkerPool_init_def
        WorkerPool_stop_def split: if_splits)


lemma main_step_frame:
  assumes "main_step s = Some s'"
  obtains e es where "main_todo s = e # es" and "main_done s' = main_done s @ [e]"
    and "main_todo s' = es" and "pool_workers s' = pool_workers s"
    and "process (pool (the_output s')) = process (pool (the_output s))
         \<or> (\<exists>pool_cfg. e = OutputCreated pool_cfg) \<and> process (pool (the_output s')) = Spawning"
    and "flusher_running s' \<longrightarrow> flusher_running s \<or> (\<exists>threshold. e = FlusherStart threshold)"
    and "recording s' \<longrightarrow> recording s \<or> e = StartRecording 1"
    and "e = PoolJoin \<longrightarrow> process (pool (the_output s)) = Finished"
    and "e = FlusherStop \<longrightarrow> \<not> flusher_running s'"
    and "e = StopRecording 1 \<longrightarrow> \<not> recording s'"
proof -
  from assms obtain e es s1 where todo: "main_todo s = e # es"
    and eff: "main_effect e s = Some s1"
    and s': "s' = s1\<lparr>main_todo := es, main_done := main_done s @ [e]\<rparr>"
    by (auto simp: main_step_def split: list.splits option.splits)
  note f = main_effect_frame [OF eff]
  show thesis
  proof (rule that [of e es])
    show "main_todo s = e # es" by (rule todo)
    show "main_done s' = main_done s @ [e]" "main_todo s' = es" using s' by simp_all
    show "pool_workers s' = pool_workers s" using s' f(3) by simp
    show "process (pool (the_output s')) = process (pool (the_output s))
         \<or> (\<exists>pool_cfg. e = OutputCreated pool_cfg) \<and> process (pool (the_output s')) = Spawning"
      using s' f(4) by simp
    show "flusher_running s' \<longrightarrow> flusher_running s \<or> (\<exists>threshold. e = FlusherStart threshold)"
      using s' f(5) by simp
    show "recording s' \<longrightarrow> recording s \<or> e = StartRecording 1" using s' f(6) by simp
    show "e = PoolJoin \<longrightarrow> process (pool (the_output s)) = Finished" by (rule f(7))
    show "e = FlusherStop \<longrightarrow> \<not> flusher_running s'" using s' f(8) by simp
    show "e = StopRecording 1 \<longrightarrow> \<not> recording s'" using s' f(9) by simp
  qed
qed



lemma step_program_invariant:
  assumes "program_invariant cfg k s" and "step a s = Some s'"
  shows "program_invariant cfg k s'"
proof (cases a)
  case Main
  with assms(2) have m: "main_step s = Some s'" by simp
  show ?thesis
    by (rule main_step_frame [OF m]) (use assms(1) in \<open>simp add: program_invariant_def\<close>)
next
  case Pool
  with assms show ?thesis by (simp add: program_invariant_def pool_step_frame)
next
  case (Worker i)
  with assms show ?thesis by (simp add: program_invariant_def worker_step_frame)
next
  case Flusher
  with assms show ?thesis by (simp add: program_invariant_def flusher_step_frame)
next
  case (Camera buf)
  with assms show ?thesis by (simp add: program_invariant_def camera_step_frame)
next
  case Reassembler
  with assms show ?thesis by (simp add: program_invariant_def reassembler_step_frame)
qed

lemma pool_step_spawning:
  assumes "process (pool (the_output s)) = Spawning" and "pool_step s = Some s'"
  shows "process (pool (the_output s')) = Polling"
  using assms by (auto simp: pool_step_def Let_def)

lemma main_step_workers_invariant:
  assumes "workers_invariant s" and m: "main_step s = Some s'"
  shows "workers_invariant s'"
proof (rule main_step_frame [OF m])
  fix e es
  assume w: "pool_workers s' = pool_workers s"
    and pr: "process (pool (the_output s')) = process (pool (the_output s))
         \<or> (\<exists>pool_cfg. e = OutputCreated pool_cfg) \<and> process (pool (the_output s')) = Spawning"
  from pr show ?thesis
  proof
    assume "process (pool (the_output s')) = process (pool (the_output s))"
    with assms(1) w show ?thesis by (simp add: workers_invariant_def)
  next
    assume "(\<exists>pool_cfg. e = OutputCreated pool_cfg) \<and> process (pool (the_output s')) = Spawning"
    then show ?thesis by (simp add: workers_invariant_def)
  qed
qed

lemma pool_step_workers_invariant:
  assumes "workers_invariant s" and p: "pool_step s = Some s'"
  shows "workers_invariant s'"
proof (cases "process (pool (the_output s)) = Spawning")
  case True
  from pool_step_spawning [OF True p] show ?thesis
    by (simp add: workers_invariant_def)
next
  case False
  note f = pool_step_process [OF p]
  from f(3) False have w: "pool_workers s' = pool_workers s" by simp
  have A: "\<forall>j<length (pool_workers s). pool_workers s ! j = Exited"
    if "process (pool (the_output s')) = Finished"
  proof -
    from that f(1) obtain i where "process (pool (the_output s)) = Joining i"
      and "length (pool_workers s) \<le> i" by blast
    with assms(1) show ?thesis by (simp add: workers_invariant_def)
  qed
  have B: "n \<le> length (pool_workers s) \<and> (\<forall>j<n. pool_workers s ! j = Exited)"
    if n: "process (pool (the_output s')) = Joining n" for n
  proof -
    from f(2) [of n] n
    have "(process (pool (the_output s)) = Polling \<and> n = 0)
         \<or> (\<exists>i. n = Suc i \<and> process (pool (the_output s)) = Joining i
               \<and> i < length (pool_workers s) \<and> pool_workers s ! i = Exited)"
      by simp
    then show ?thesis
    proof
      assume "process (pool (the_output s)) = Polling \<and> n = 0"
      then show ?thesis by simp
    next
      assume "\<exists>i. n = Suc i \<and> process (pool (the_output s)) = Joining i
               \<and> i < length (pool_workers s) \<and> pool_workers s ! i = Exited"
      then obtain i where i: "n = Suc i" "process (pool (the_output s)) = Joining i"
        "i < length (pool_workers s)" "pool_workers s ! i = Exited" by blast
      from assms(1) i(2) have "\<forall>j<i. pool_workers s ! j = Exited"
        by (simp add: workers_invariant_def)
      with i(1,3,4) show ?thesis by (simp add: less_Suc_eq)
    qed
  qed
  from A B show ?thesis
    unfolding workers_invariant_def w by blast
qed

lemma worker_step_workers_invariant:
  assumes "workers_invariant s" and p: "worker_step i s = Some s'"
  shows "workers_invariant s'"
proof -
  note f = worker_step_frame [OF p]
  have ne: "process (pool (the_output s)) \<noteq> Finished"
    using assms(1) f(7,8) by (auto simp: workers_invariant_def)
  have B: "n \<le> length (pool_workers s) \<and> (\<forall>j<n. pool_workers s' ! j = Exited)"
    if n: "process (pool (the_output s)) = Joining n" for n
  proof -
    from assms(1) n have "n \<le> length (pool_workers s)"
      and "\<forall>j<n. pool_workers s ! j = Exited"
      by (simp_all add: workers_invariant_def)
    with f(9) show ?thesis by blast
  qed
  from ne B show ?thesis
    unfolding workers_invariant_def f(3) f(6) by blast
qed


lemma step_workers_invariant:
  assumes "workers_invariant s" and "step a s = Some s'"
  shows "workers_invariant s'"
proof (cases a)
  case Main
  with assms show ?thesis by (simp add: main_step_workers_invariant)
next
  case Pool
  with assms show ?thesis by (simp add: pool_step_workers_invariant)
next
  case (Worker i)
  with assms show ?thesis by (simp add: worker_step_workers_invariant)
next
  case Flusher
  with assms show ?thesis by (simp add: workers_invariant_def flusher_step_frame)
next
  case (Camera buf)
  with assms show ?thesis by (simp add: workers_invariant_def camera_step_frame)
next
  case Reassembler
  with assms show ?thesis by (simp add: workers_invariant_def reassembler_step_frame)
qed

lemma not_in_startup:
  "PoolJoin \<notin> set (SignalHandlers # startup cfg)"
  "FlusherStop \<notin> set (SignalHandlers # startup cfg)"
  "StopRecording 1 \<notin> set (SignalHandlers # startup cfg)"
  by (simp_all add: startup_def)

lemma start_events_once:
  "OutputCreated pool_cfg \<notin> set wait_round" "OutputCreated pool_cfg \<notin> set teardown"
  "FlusherStart threshold \<notin> set wait_round" "FlusherStart threshold \<notin> set teardown"
  "StartRecording 1 \<notin> set wait_round" "StartRecording 1 \<notin> set teardown"
  by (simp_all add: wait_round_def teardown_def)

lemma step_stopped_invariant:
  assumes "program_invariant cfg k s" and "stopped_invariant s" and "step a s = Some s'"
  shows "stopped_invariant s'"
proof (cases a)
  case Main
  with assms(3) have "main_step s = Some s'" by simp
  then show ?thesis
  proof (rule main_step_frame)
    fix e es
    assume todo: "main_todo s = e # es" and d: "main_done s' = main_done s @ [e]"
      and pr: "process (pool (the_output s')) = process (pool (the_output s))
         \<or> (\<exists>pool_cfg. e = OutputCreated pool_cfg) \<and> process (pool (the_output s')) = Spawning"
      and fl: "flusher_running s' \<longrightarrow> flusher_running s \<or> (\<exists>threshold. e = FlusherStart threshold)"
      and re: "recording s' \<longrightarrow> recording s \<or> e = StartRecording 1"
      and pj: "e = PoolJoin \<longrightarrow> process (pool (the_output s)) = Finished"
      and fs: "e = FlusherStop \<longrightarrow> \<not> flusher_running s'"
      and sr: "e = StopRecording 1 \<longrightarrow> \<not> recording s'"
    from assms(1) todo have L: "main_done s @ e # es = main_events cfg k"
      by (simp add: program_invariant_def)
    have start: "set (main_done s) \<subseteq> set (SignalHandlers # startup cfg)"
      if "e \<notin> set wait_round" and "e \<notin> set teardown"
      using L that by (rule start_event_prefix)
    have a: "process (pool (the_output s')) = Finished"
      if "PoolJoin \<in> set (main_done s')"
    proof (cases "e = PoolJoin")
      case True
      with pj pr show ?thesis by auto
    next
      case False
      with that d have old: "PoolJoin \<in> set (main_done s)" by simp
      with assms(2) have fin: "process (pool (the_output s)) = Finished"
        by (simp add: stopped_invariant_def)
      show ?thesis
      proof (rule ccontr)
        assume "process (pool (the_output s')) \<noteq> Finished"
        with pr fin obtain pool_cfg where "e = OutputCreated pool_cfg" by auto
        then have "set (main_done s) \<subseteq> set (SignalHandlers # startup cfg)"
          by (intro start) (simp_all only: start_events_once not_False_eq_True)
        with old not_in_startup(1) [of cfg] show False by blast
      qed
    qed
    have b: "\<not> flusher_running s'" if "FlusherStop \<in> set (main_done s')"
    proof (cases "e = FlusherStop")
      case True
      with fs show ?thesis by simp
    next
      case False
      with that d have old: "FlusherStop \<in> set (main_done s)" by simp
      with assms(2) have off: "\<not> flusher_running s"
        by (simp add: stopped_invariant_def)
      show ?thesis
      proof
        assume "flusher_running s'"
        with fl off obtain threshold where "e = FlusherStart threshold" by auto
        then have "set (main_done s) \<subseteq> set (SignalHandlers # startup cfg)"
          by (intro start) (simp_all only: start_events_once not_False_eq_True)
        with old not_in_startup(2) [of cfg] show False by blast
      qed
    qed
    have c: "\<not> recording s'" if "StopRecording 1 \<in> set (main_done s')"
    proof (cases "e = StopRecording 1")
      case True
      with sr show ?thesis by simp
    next
      case False
      with that d have old: "StopRecording 1 \<in> set (main_done s)" by simp
      with assms(2) have off: "\<not> recording s"
        by (simp add: stopped_invariant_def)
      show ?thesis
      proof
        assume "recording s'"
        with re off have "e = StartRecording 1" by auto
        then have "set (main_done s) \<subseteq> set (SignalHandlers # startup cfg)"
          by (intro start) (simp_all only: start_events_once not_False_eq_True)
        with old not_in_startup(3) [of cfg] show False by blast
      qed
    qed
    from a b c show ?thesis by (simp add: stopped_invariant_def)
  qed
next
  case Pool
  with assms(3) have p: "pool_step s = Some s'" by simp
  from pool_step_process(4) [OF p] assms(2)
  have "PoolJoin \<notin> set (main_done s)" by (auto simp: stopped_invariant_def)
  with assms(2) show ?thesis
    by (simp add: stopped_invariant_def pool_step_frame [OF p])
next
  case (Worker i)
  with assms show ?thesis by (simp add: stopped_invariant_def worker_step_frame)
next
  case Flusher
  with assms show ?thesis by (simp add: stopped_invariant_def flusher_step_frame)
next
  case (Camera buf)
  with assms show ?thesis by (simp add: stopped_invariant_def camera_step_frame)
next
  case Reassembler
  with assms show ?thesis by (simp add: stopped_invariant_def reassembler_step_frame)
qed

lemma step_invariant:
  assumes "teardown_invariant cfg k s" and "step a s = Some s'"
  shows "teardown_invariant cfg k s'"
  using assms
  by (simp add: teardown_invariant_def step_program_invariant [of cfg k s a s']
      step_workers_invariant [of s a s'] step_stopped_invariant [of cfg k s a s'])

lemma run_invariant:
  assumes "teardown_invariant cfg k s" and "run sched s = Some s'"
  shows "teardown_invariant cfg k s'"
  using assms
proof (induction sched arbitrary: s)
  case Nil
  then show ?case by simp
next
  case (Cons a sched)
  from Cons.prems(2) obtain s1 where a: "step a s = Some s1" and r: "run sched s1 = Some s'"
    by (auto split: option.splits)
  from Cons.prems(1) a have "teardown_invariant cfg k s1" by (rule step_invariant)
  then show ?case using r by (rule Cons.IH)
qed

lemma write_keeps_out_queue:
  "DistributeFramesAndInfer_write self buf = Inr self' \<Longrightarrow> out_queue self' = out_queue self"
  by (auto simp: DistributeFramesAndInfer_write_def put_def split: if_splits)

lemma camera_step_out_queue:
  assumes "camera_step buf s = Some s'"
  shows "out_queue (the_output s') = out_queue (the_output s)"
  using assms
  by (auto simp: camera_step_def split: if_splits sum.splits dest: write_keeps_out_queue)

lemma main_effect_out_queue:
  assumes "main_effect e s = Some s'"
  shows "items (out_queue (the_output s')) = items (out_queue (the_output s))
         \<or> (\<exists>pool_cfg. e = OutputCreated pool_cfg)"
  using assms
  by (induction e s rule: main_effect.induct)
     (auto simp: cancel_join_thread_def split: if_splits)

lemma main_step_out_queue:
  assumes "main_step s = Some s'"
  obtains e es where "main_todo s = e # es"
    and "items (out_queue (the_output s')) = items (out_queue (the_output s))
         \<or> (\<exists>pool_cfg. e = OutputCreated pool_cfg)"
proof -
  from assms obtain e es s1 where todo: "main_todo s = e # es"
    and eff: "main_effect e s = Some s1"
    and s': "s' = s1\<lparr>main_todo := es, main_done := main_done s @ [e]\<rparr>"
    by (auto simp: main_step_def split: list.splits option.splits)
  from main_effect_out_queue [OF eff] s'
  have "items (out_queue (the_output s')) = items (out_queue (the_output s))
         \<or> (\<exists>pool_cfg. e = OutputCreated pool_cfg)" by simp
  with todo show thesis by (rule that)
qed

lemma step_done_mono:
  assumes "step a s = Some s'"
  shows "set (main_done s) \<subseteq> set (main_done s')"
proof (cases a)
  case Main
  with assms have m: "main_step s = Some s'" by simp
  show ?thesis by (rule main_step_frame [OF m]) auto
next
  case Pool
  with assms show ?thesis by (simp add: pool_step_frame)
next
  case (Worker i)
  with assms show ?thesis by (simp add: worker_step_frame)
next
  case Flusher
  with assms show ?thesis by (simp add: flusher_step_frame)
next
  case (Camera buf)
  with assms show ?thesis by (simp add: camera_step_frame)
next
  case Reassembler
  with assms show ?thesis by (simp add: reassembler_step_frame)
qed

lemma joined_workers_exited:
  assumes "teardown_invariant cfg k s" and "PoolJoin \<in> set (main_done s)"
  shows "process (pool (the_output s)) = Finished"
    and "\<forall>w\<in>set (pool_workers s). w = Exited"
proof -
  from assms show fin: "process (pool (the_output s)) = Finished"
    by (simp add: teardown_invariant_def stopped_invariant_def)
  with assms(1) have "\<forall>j<length (pool_workers s). pool_workers s ! j = Exited"
    by (simp add: teardown_invariant_def workers_invariant_def)
  then show "\<forall>w\<in>set (pool_workers s). w = Exited"
    by (simp add: all_set_conv_all_nth)
qed

lemma joined_step:
  assumes inv: "teardown_invariant cfg k s" and j: "PoolJoin \<in> set (main_done s)"
    and st: "step a s = Some s'"
  shows "\<forall>i. a \<noteq> Worker i"
    and "\<exists>n. items (out_queue (the_output s')) = drop n (items (out_queue (the_output s)))"
proof -
  note fin = joined_workers_exited [OF inv j]
  have same: "\<exists>n. items (out_queue (the_output s')) = drop n (items (out_queue (the_output s)))"
    if "items (out_queue (the_output s')) = items (out_queue (the_output s))"
    using that by (intro exI [of _ 0]) simp
  show w: "\<forall>i. a \<noteq> Worker i"
  proof (intro allI notI)
    fix i assume "a = Worker i"
    with st have p: "worker_step i s = Some s'" by simp
    from worker_step_frame(7,8) [OF p] fin(2) show False
      by (auto dest: nth_mem)
  qed
  show "\<exists>n. items (out_queue (the_output s')) = drop n (items (out_queue (the_output s)))"
  proof (cases a)
    case Main
    with st have m: "main_step s = Some s'" by simp
    show ?thesis
    proof (rule main_step_out_queue [OF m])
      fix e es
      assume todo: "main_todo s = e # es"
        and q: "items (out_queue (the_output s')) = items (out_queue (the_output s))
         \<or> (\<exists>pool_cfg. e = OutputCreated pool_cfg)"
      have "\<nexists>pool_cfg. e = OutputCreated pool_cfg"
      proof
        assume "\<exists>pool_cfg. e = OutputCreated pool_cfg"
        then obtain pool_cfg where e: "e = OutputCreated pool_cfg" ..
        from inv todo have "main_done s @ e # es = main_events cfg k"
          by (simp add: teardown_invariant_def program_invariant_def)
        then have "set (main_done s) \<subseteq> set (SignalHandlers # startup cfg)"
          by (rule start_event_prefix) (simp_all only: e start_events_once not_False_eq_True)
        with j not_in_startup(1) [of cfg] show False by blast
      qed
      with q show ?thesis by (intro same) simp
    qed
  next
    case Pool
    with st have "pool_step s = Some s'" by simp
    from pool_step_process(4) [OF this] fin(1) show ?thesis by simp
  next
    case (Worker i)
    with w show ?thesis by simp
  next
    case Flusher
    with st show ?thesis by (intro same) (simp add: flusher_step_frame)
  next
    case (Camera buf)
    with st show ?thesis by (intro same) (simp add: camera_step_out_queue)
  next
    case Reassembler
    with st show ?thesis by (intro exI [of _ 1]) (simp add: reassembler_step_frame)
  qed
qed

lemma joined_run:
  assumes "teardown_invariant cfg k s" and "PoolJoin \<in> set (main_done s)"
    and "run sched s = Some s'"
  shows "(\<forall>i. Worker i \<notin> set sched)
     \<and> (\<exists>n. items (out_queue (the_output s')) = drop n (items (out_queue (the_output s))))
     \<and> PoolJoin \<in> set (main_done s')"
  using assms
proof (induction sched arbitrary: s)
  case Nil
  then show ?case by (simp add: exI [of _ 0])
next
  case (Cons a sched)
  from Cons.prems(3) obtain s1 where a: "step a s = Some s1" and r: "run sched s1 = Some s'"
    by (auto split: option.splits)
  from Cons.prems(1) a have inv1: "teardown_invariant cfg k s1" by (rule step_invariant)
  from step_done_mono [OF a] Cons.prems(2) have j1: "PoolJoin \<in> set (main_done s1)" by blast
  note js = joined_step [OF Cons.prems(1,2) a]
  from js(2) obtain n where n: "items (out_queue (the_output s1)) =
      drop n (items (out_queue (the_output s)))" ..
  from Cons.IH [OF inv1 j1 r] obtain m where nw: "\<forall>i. Worker i \<notin> set sched"
    and m: "items (out_queue (the_output s')) = drop m (items (out_queue (the_output s1)))"
    and j': "PoolJoin \<in> set (main_done s')"
    by blast
  from m n have "items (out_queue (the_output s')) =
      drop (m + n) (items (out_queue (the_output s)))" by (simp add: add.commute)
  then have "\<exists>n. items (out_queue (the_output s')) =
      drop n (items (out_queue (the_output s)))" ..
  with nw js(1) j' show ?case by auto
qed

text \<open>
  C3. In every run of the system, once \<open>pool.join()\<close> in
  \<open>DistributeFramesAndInfer.stop\<close> has returned (the stop event was set before it),
  whatever happens afterwards: every worker has exited, no worker takes a step any more
  (none pulls a task, none pushes a result), and the result queue only loses entries, to
  the reassembler; none is added.
\<close>

theorem no_worker_after_stop:
  assumes "run sched (system_init cfg k) = Some s"
    and "PoolJoin \<in> set (main_done s)"
    and "run sched' s = Some s'"
  shows "(\<forall>w\<in>set (pool_workers s'). w = Exited)
     \<and> (\<forall>i. Worker i \<notin> set sched')
     \<and> (\<exists>n. items (out_queue (the_output s')) = drop n (items (out_queue (the_output s))))"
proof -
  from init_invariant assms(1) have inv: "teardown_invariant cfg k s"
    by (rule run_invariant)
  then have inv': "teardown_invariant cfg k s'"
    using assms(3) by (rule run_invariant)
  note r = joined_run [OF inv assms(2,3)]
  from r have "PoolJoin \<in> set (main_done s')" by simp
  with inv' have "\<forall>w\<in>set (pool_workers s'). w = Exited"
    by (rule joined_workers_exited)
  with r show ?thesis by simp
qed

lemma join_example:
  "run schedule_to_join (system_init example_config 0) \<noteq> None"
  "PoolJoin \<in> set (main_done (the (run schedule_to_join (system_init example_config 0))))"
  "run (replicate 5 Main) (the (run schedule_to_join (system_init example_config 0))) \<noteq> None"
  "pool_workers (the (run (replicate 5 Main)
      (the (run schedule_to_join (system_init example_config 0))))) = [Exited]"
  by code_simp+

theorem no_worker_after_stop_witness:
  "run schedule_to_join (system_init example_config 0) \<noteq> None
   \<and> PoolJoin \<in> set (main_done (the (run schedule_to_join (system_init example_config 0))))
   \<and> run (replicate 5 Main) (the (run schedule_to_join (system_init example_config 0))) \<noteq> None
   \<and> list_all (\<lambda>w. w = Exited) (pool_workers (the (run (replicate 5 Main)
        (the (run schedule_to_join (system_init example_config 0))))))"
proof -
  let ?s = "the (run schedule_to_join (system_init example_config 0))"
  let ?s' = "the (run (replicate 5 Main) ?s)"
  have a: "run schedule_to_join (system_init example_config 0) = Some ?s"
    using join_example(1) by simp
  have b: "PoolJoin \<in> set (main_done ?s)" by (rule join_example(2))
  have c: "run (replicate 5 Main) ?s = Some ?s'"
    using join_example(3) by simp
  from no_worker_after_stop [OF a b c] have "\<forall>w\<in>set (pool_workers ?s'). w = Exited"
    by simp
  then have "list_all (\<lambda>w. w = Exited) (pool_workers ?s')"
    by (simp add: list_all_iff)
  with join_example(1,2,3) show ?thesis by simp
qed

lemma run_done_mono:
  assumes "run sched s = Some s'"
  shows "set (main_done s) \<subseteq> set (main_done s')"
  using assms
proof (induction sched arbitrary: s)
  case Nil
  then show ?case by simp
next
  case (Cons a sched)
  from Cons.prems obtain s1 where a: "step a s = Some s1" and r: "run sched s1 = Some s'"
    by (auto split: option.splits)
  from step_done_mono [OF a] Cons.IH [OF r] show ?case by blast
qed

lemma last_event_done:
  assumes "xs @ ys = zs @ [e]" and "e \<in> set xs" and "e \<notin> set zs"
  shows "ys = []"
proof (rule ccontr)
  assume "ys \<noteq> []"
  then obtain ys' y where ys: "ys = ys' @ [y]" by (metis rev_exhaust)
  with assms(1) have "xs @ ys' = zs" by simp
  then have "set xs \<subseteq> set zs" by auto
  with assms(2,3) show False by blast
qed

lemma main_events_last:
  "\<exists>zs. main_events cfg k = zs @ [FlusherStop] \<and> FlusherStop \<notin> set zs
     \<and> PoolJoin \<in> set zs \<and> StopRecording 1 \<in> set zs"
proof -
  let ?zs = "SignalHandlers # startup cfg @ wait_loop k @ butlast teardown"
  have "main_events cfg k = ?zs @ [FlusherStop]"
    by (simp add: main_events_def teardown_def)
  moreover have "FlusherStop \<notin> set ?zs"
    using set_wait_loop [of k] by (auto simp: startup_def wait_round_def teardown_def)
  moreover have "PoolJoin \<in> set ?zs" "StopRecording 1 \<in> set ?zs"
    by (simp_all add: teardown_def)
  ultimately show ?thesis by blast
qed

lemma flusher_stopped_all_done:
  assumes "teardown_invariant cfg k s" and "FlusherStop \<in> set (main_done s)"
  shows "main_todo s = []" and "main_done s = main_events cfg k"
    and "PoolJoin \<in> set (main_done s)" and "StopRecording 1 \<in> set (main_done s)"
proof -
  from main_events_last [of cfg k] obtain zs
    where zs: "main_events cfg k = zs @ [FlusherStop]" "FlusherStop \<notin> set zs"
      "PoolJoin \<in> set zs" "StopRecording 1 \<in> set zs" by blast
  from assms(1) have p: "main_done s @ main_todo s = main_events cfg k"
    by (simp add: teardown_invariant_def program_invariant_def)
  with zs(1) have "main_done s @ main_todo s = zs @ [FlusherStop]" by simp
  then show e: "main_todo s = []" using assms(2) zs(2) by (rule last_event_done)
  with p show d: "main_done s = main_events cfg k" by simp
  from d zs show "PoolJoin \<in> set (main_done s)" "StopRecording 1 \<in> set (main_done s)"
    by simp_all
qed

lemma flusher_stopped_step:
  assumes inv: "teardown_invariant cfg k s" and f: "FlusherStop \<in> set (main_done s)"
    and st: "step a s = Some s'"
  shows "a = Reassembler" and "in_queue (the_output s') = in_queue (the_output s)"
proof -
  note all = flusher_stopped_all_done [OF inv f]
  note fin = joined_workers_exited [OF inv all(3)]
  from inv f all(4) have off: "\<not> flusher_running s" "\<not> recording s"
    by (simp_all add: teardown_invariant_def stopped_invariant_def)
  show a: "a = Reassembler"
  proof (cases a)
    case Main
    with st all(1) show ?thesis by (simp add: main_step_def)
  next
    case Pool
    with st have "pool_step s = Some s'" by simp
    from pool_step_process(4) [OF this] fin(1) show ?thesis by simp
  next
    case (Worker i)
    with joined_step(1) [OF inv all(3) st] show ?thesis by simp
  next
    case Flusher
    with st off(1) show ?thesis by (simp add: flusher_step_def)
  next
    case (Camera buf)
    with st off(2) show ?thesis by (simp add: camera_step_def)
  next
    case Reassembler
    then show ?thesis .
  qed
  with st show "in_queue (the_output s') = in_queue (the_output s)"
    by (simp add: reassembler_step_frame)
qed

lemma flusher_stopped_run:
  assumes "teardown_invariant cfg k s" and "FlusherStop \<in> set (main_done s)"
    and "run sched s = Some s'"
  shows "Flusher \<notin> set sched \<and> in_queue (the_output s') = in_queue (the_output s)"
  using assms
proof (induction sched arbitrary: s)
  case Nil
  then show ?case by simp
next
  case (Cons a sched)
  from Cons.prems(3) obtain s1 where a: "step a s = Some s1" and r: "run sched s1 = Some s'"
    by (auto split: option.splits)
  from Cons.prems(1) a have inv1: "teardown_invariant cfg k s1" by (rule step_invariant)
  from step_done_mono [OF a] Cons.prems(2) have f1: "FlusherStop \<in> set (main_done s1)"
    by blast
  note fs = flusher_stopped_step [OF Cons.prems(1,2) a]
  from Cons.IH [OF inv1 f1 r] fs show ?case by simp
qed

text \<open>
  C7, as the specification states it, fails: \<open>main\<close> stops the Flusher last, so the
  Flusher still runs while the pool is being stopped. Three frames wait on the queue
  when the main thread has set the pool's stop event; the Flusher, with threshold 1,
  then samples the queue and discards the two oldest.
\<close>

theorem flusher_sheds_after_pool_stop_counterexample:
  "run schedule_to_pool_stop (system_init example_config 0) \<noteq> None
   \<and> PoolStop \<in> set (main_done (the (run schedule_to_pool_stop (system_init example_config 0))))
   \<and> frames_queued (the (run schedule_to_pool_stop (system_init example_config 0))) = [0, 1, 2]
   \<and> step Flusher (the (run schedule_to_pool_stop (system_init example_config 0))) \<noteq> None
   \<and> frames_queued (the (step Flusher
        (the (run schedule_to_pool_stop (system_init example_config 0))))) = [2]"
  by code_simp

text \<open>
  C7, amended. In every run of the system, once \<open>flusher.stop()\<close> has been called,
  which is the last call of \<open>main\<close> (every other call of the teardown has been made by
  then), the Flusher takes no step any more, whatever happens afterwards, and the frames
  queue stays as it is: no task is discarded.
\<close>

theorem no_shedding_after_flusher_stop:
  assumes "run sched (system_init cfg k) = Some s"
    and "FlusherStop \<in> set (main_done s)"
    and "run sched' s = Some s'"
  shows "Flusher \<notin> set sched'
     \<and> in_queue (the_output s') = in_queue (the_output s)
     \<and> \<not> flusher_running s'
     \<and> main_done s = main_events cfg k"
proof -
  from init_invariant assms(1) have inv: "teardown_invariant cfg k s"
    by (rule run_invariant)
  then have inv': "teardown_invariant cfg k s'"
    using assms(3) by (rule run_invariant)
  from run_done_mono [OF assms(3)] assms(2) have "FlusherStop \<in> set (main_done s')"
    by blast
  with inv' have "\<not> flusher_running s'"
    by (simp add: teardown_invariant_def stopped_invariant_def)
  with flusher_stopped_run [OF inv assms(2,3)] flusher_stopped_all_done(2) [OF inv assms(2)]
  show ?thesis by simp
qed

lemma flusher_stop_example:
  "run (schedule_to_join @ replicate 5 Main) (system_init example_config 0) \<noteq> None"
  "FlusherStop \<in> set (main_done (the (run (schedule_to_join @ replicate 5 Main)
      (system_init example_config 0))))"
  "step Flusher (the (run (schedule_to_join @ replicate 5 Main)
      (system_init example_config 0))) = None"
  by code_simp+

theorem no_shedding_after_flusher_stop_witness:
  "run (schedule_to_join @ replicate 5 Main) (system_init example_config 0) \<noteq> None
   \<and> FlusherStop \<in> set (main_done (the (run (schedule_to_join @ replicate 5 Main)
        (system_init example_config 0))))
   \<and> run [] (the (run (schedule_to_join @ replicate 5 Main) (system_init example_config 0)))
        \<noteq> None
   \<and> \<not> flusher_running (the (run (schedule_to_join @ replicate 5 Main)
        (system_init example_config 0)))
   \<and> step Flusher (the (run (schedule_to_join @ replicate 5 Main)
        (system_init example_config 0))) = None"
proof -
  let ?s = "the (run (schedule_to_join @ replicate 5 Main) (system_init example_config 0))"
  have a: "run (schedule_to_join @ replicate 5 Main) (system_init example_config 0) = Some ?s"
    using flusher_stop_example(1) by simp
  have b: "FlusherStop \<in> set (main_done ?s)" by (rule flusher_stop_example(2))
  have c: "run [] ?s = Some ?s" by simp
  from no_shedding_after_flusher_stop [OF a b c] have "\<not> flusher_running ?s" by simp
  with flusher_stop_example show ?thesis by simp
qed

section \<open>The order of the teardown\<close>

lemma main_returns:
  "main (Parsed cfg) (Some k) True = Some (main_events cfg k)"
  by (simp add: main_def DistributeFramesAndInfer_stop_def Process_join_def
      DistributeFramesAndInfer_init_def WorkerPool_stop_def WorkerPool_start_def
      WorkerPool_init_def)

lemma main_waits_for_pool:
  "main (Parsed cfg) (Some k) False = None"
  by (simp add: main_def DistributeFramesAndInfer_stop_def Process_join_def
      DistributeFramesAndInfer_init_def WorkerPool_stop_def WorkerPool_start_def
      WorkerPool_init_def)

lemma main_events_teardown:
  "\<exists>before. main_events cfg k =
       before @ [StopRecording 0, StopRecording 1, PoolStop, PoolJoin,
          CancelJoinThread FramesQueue, CancelJoinThread InferencedQueue, CameraClose,
          ReassemblerStop, FlusherStop]
     \<and> set before \<inter> {StopRecording 0, StopRecording 1, PoolStop, PoolJoin,
          CancelJoinThread FramesQueue, CancelJoinThread InferencedQueue, CameraClose,
          ReassemblerStop, FlusherStop} = {}"
proof -
  let ?before = "SignalHandlers # startup cfg @ wait_loop k @ [LogInfo ''gracefully exiting'']"
  have "main_events cfg k =
       ?before @ [StopRecording 0, StopRecording 1, PoolStop, PoolJoin,
          CancelJoinThread FramesQueue, CancelJoinThread InferencedQueue, CameraClose,
          ReassemblerStop, FlusherStop]"
    by (simp add: main_events_def teardown_def)
  moreover have "set ?before \<inter> {StopRecording 0, StopRecording 1, PoolStop, PoolJoin,
          CancelJoinThread FramesQueue, CancelJoinThread InferencedQueue, CameraClose,
          ReassemblerStop, FlusherStop} = {}"
    using set_wait_loop [of k] by (auto simp: startup_def wait_round_def)
  ultimately show ?thesis by blast
qed

lemma earlier_calls_done:
  assumes "xs @ ys = P @ b # post" and "b \<notin> set P" and "b \<in> set xs"
  shows "set P \<subseteq> set xs"
proof -
  from assms(1) obtain us
    where "(xs = P @ us \<and> us @ ys = b # post) \<or> (xs @ us = P \<and> ys = us @ b # post)"
    by (auto simp only: append_eq_append_conv2)
  then show ?thesis
  proof
    assume "xs = P @ us \<and> us @ ys = b # post"
    then show ?thesis by auto
  next
    assume "xs @ us = P \<and> ys = us @ b # post"
    then have "set P = set xs \<union> set us" by auto
    with assms(2,3) show ?thesis by blast
  qed
qed

lemma teardown_calls_in_order:
  assumes "xs @ ys = main_events cfg k"
  shows "PoolStop \<in> set xs \<Longrightarrow> StopRecording 1 \<in> set xs"
    and "PoolJoin \<in> set xs \<Longrightarrow> PoolStop \<in> set xs"
    and "ReassemblerStop \<in> set xs \<Longrightarrow> PoolJoin \<in> set xs"
    and "FlusherStop \<in> set xs \<Longrightarrow> ReassemblerStop \<in> set xs"
proof -
  from main_events_teardown [of cfg k] obtain before
    where m: "main_events cfg k =
       before @ [StopRecording 0, StopRecording 1, PoolStop, PoolJoin,
          CancelJoinThread FramesQueue, CancelJoinThread InferencedQueue, CameraClose,
          ReassemblerStop, FlusherStop]"
      and d: "set before \<inter> {StopRecording 0, StopRecording 1, PoolStop, PoolJoin,
          CancelJoinThread FramesQueue, CancelJoinThread InferencedQueue, CameraClose,
          ReassemblerStop, FlusherStop} = {}"
    by blast
  {
    assume b: "PoolStop \<in> set xs"
    have "xs @ ys = (before @ [StopRecording 0, StopRecording 1]) @ PoolStop #
        [PoolJoin, CancelJoinThread FramesQueue, CancelJoinThread InferencedQueue,
         CameraClose, ReassemblerStop, FlusherStop]"
      using assms m by simp
    moreover have "PoolStop \<notin> set (before @ [StopRecording 0, StopRecording 1])"
      using d by auto
    ultimately have "set (before @ [StopRecording 0, StopRecording 1]) \<subseteq> set xs"
      using b by (rule earlier_calls_done)
    then show "StopRecording 1 \<in> set xs" by simp
  }
  {
    assume b: "PoolJoin \<in> set xs"
    have "xs @ ys = (before @ [StopRecording 0, StopRecording 1, PoolStop]) @ PoolJoin #
        [CancelJoinThread FramesQueue, CancelJoinThread InferencedQueue,
         CameraClose, ReassemblerStop, FlusherStop]"
      using assms m by simp
    moreover have "PoolJoin \<notin> set (before @ [StopRecording 0, StopRecording 1, PoolStop])"
      using d by auto
    ultimately have "set (before @ [StopRecording 0, StopRecording 1, PoolStop]) \<subseteq> set xs"
      using b by (rule earlier_calls_done)
    then show "PoolStop \<in> set xs" by simp
  }
  {
    assume b: "ReassemblerStop \<in> set xs"
    have "xs @ ys = (before @ [StopRecording 0, StopRecording 1, PoolStop, PoolJoin,
          CancelJoinThread FramesQueue, CancelJoinThread InferencedQueue, CameraClose])
        @ ReassemblerStop # [FlusherStop]"
      using assms m by simp
    moreover have "ReassemblerStop \<notin> set (before @ [StopRecording 0, StopRecording 1,
          PoolStop, PoolJoin, CancelJoinThread FramesQueue, CancelJoinThread InferencedQueue,
          CameraClose])"
      using d by auto
    ultimately have "set (before @ [StopRecording 0, StopRecording 1, PoolStop, PoolJoin,
          CancelJoinThread FramesQueue, CancelJoinThread InferencedQueue, CameraClose])
        \<subseteq> set xs"
      using b by (rule earlier_calls_done)
    then show "PoolJoin \<in> set xs" by simp
  }
  {
    assume b: "FlusherStop \<in> set xs"
    have "xs @ ys = (before @ [StopRecording 0, StopRecording 1, PoolStop, PoolJoin,
          CancelJoinThread FramesQueue, CancelJoinThread InferencedQueue, CameraClose,
          ReassemblerStop]) @ FlusherStop # []"
      using assms m by simp
    moreover have "FlusherStop \<notin> set (before @ [StopRecording 0, StopRecording 1,
          PoolStop, PoolJoin, CancelJoinThread FramesQueue, CancelJoinThread InferencedQueue,
          CameraClose, ReassemblerStop])"
      using d by auto
    ultimately have "set (before @ [StopRecording 0, StopRecording 1, PoolStop, PoolJoin,
          CancelJoinThread FramesQueue, CancelJoinThread InferencedQueue, CameraClose,
          ReassemblerStop]) \<subseteq> set xs"
      using b by (rule earlier_calls_done)
    then show "ReassemblerStop \<in> set xs" by simp
  }
qed

lemma recording_stopped_run:
  assumes "teardown_invariant cfg k s" and "StopRecording 1 \<in> set (main_done s)"
    and "run sched s = Some s'"
  shows "\<forall>buf. Camera buf \<notin> set sched"
  using assms
proof (induction sched arbitrary: s)
  case Nil
  then show ?case by simp
next
  case (Cons a sched)
  from Cons.prems(3) obtain s1 where a: "step a s = Some s1" and r: "run sched s1 = Some s'"
    by (auto split: option.splits)
  from Cons.prems(1) a have inv1: "teardown_invariant cfg k s1" by (rule step_invariant)
  from step_done_mono [OF a] Cons.prems(2) have d1: "StopRecording 1 \<in> set (main_done s1)"
    by blast
  from Cons.prems(1,2) have off: "\<not> recording s"
    by (simp add: teardown_invariant_def stopped_invariant_def)
  have "a \<noteq> Camera buf" for buf
  proof
    assume "a = Camera buf"
    with a off show False by (simp add: camera_step_def)
  qed
  with Cons.IH [OF inv1 d1 r] show ?case by auto
qed

lemma join_blocks:
  assumes "main_todo s = PoolJoin # es" and "process (pool (the_output s)) \<noteq> Finished"
  shows "step Main s = None"
  using assms by (simp add: main_step_def)


text \<open>
  C2, as the specification states it, fails: \<open>main\<close> stops the reassembler before the
  Flusher, not after it. In the sequence of calls of \<open>main\<close> the reassembler's stop comes
  before the Flusher's and not after it, and the system reaches a state in which the
  reassembler has been stopped while the Flusher has not been and still runs.
\<close>

theorem teardown_order_counterexample:
  "main (Parsed example_config) (Some 0) True = Some (main_events example_config 0)
   \<and> happens_before ReassemblerStop FlusherStop (main_events example_config 0)
   \<and> \<not> happens_before FlusherStop ReassemblerStop (main_events example_config 0)
   \<and> run (schedule_to_join @ replicate 4 Main) (system_init example_config 0) \<noteq> None
   \<and> ReassemblerStop \<in> set (main_done (the (run (schedule_to_join @ replicate 4 Main)
        (system_init example_config 0))))
   \<and> FlusherStop \<notin> set (main_done (the (run (schedule_to_join @ replicate 4 Main)
        (system_init example_config 0))))
   \<and> flusher_running (the (run (schedule_to_join @ replicate 4 Main)
        (system_init example_config 0)))"
  by code_simp

text \<open>
  C2, amended. In every run of the system after a signal, the main thread makes the calls
  of \<open>main\<close> in their order, and \<open>main\<close> ends with these calls, each made once: the
  recording is stopped on both splitter ports, the pool's stop event is set, the pool
  process is joined, the join threads of both queues are cancelled, the camera is closed,
  the reassembler is stopped, and last the Flusher is stopped. So the capture is stopped
  before the pool, and once it is stopped the camera hands over no chunk any more: no new
  task is created. The pool is stopped second: the join does not return while the pool
  process runs, the process ends only when every worker has exited, and so all workers
  have exited when the join has returned. The reassembler is stopped third, after the
  join, and the Flusher fourth, after the reassembler.
\<close>

theorem teardown_order:
  assumes "run sched (system_init cfg k) = Some s" and "run sched' s = Some s'"
  shows "main (Parsed cfg) (Some k) True = Some (main_done s @ main_todo s)
     \<and> (\<exists>before. main_done s @ main_todo s =
            before @ [StopRecording 0, StopRecording 1, PoolStop, PoolJoin,
              CancelJoinThread FramesQueue, CancelJoinThread InferencedQueue, CameraClose,
              ReassemblerStop, FlusherStop]
          \<and> set before \<inter> {StopRecording 0, StopRecording 1, PoolStop, PoolJoin,
              CancelJoinThread FramesQueue, CancelJoinThread InferencedQueue, CameraClose,
              ReassemblerStop, FlusherStop} = {})
     \<and> (PoolStop \<in> set (main_done s) \<longrightarrow> StopRecording 1 \<in> set (main_done s))
     \<and> (StopRecording 1 \<in> set (main_done s) \<longrightarrow>
           \<not> recording s \<and> (\<forall>buf. Camera buf \<notin> set sched'))
     \<and> (PoolJoin \<in> set (main_done s) \<longrightarrow> PoolStop \<in> set (main_done s))
     \<and> (\<forall>es. main_todo s = PoolJoin # es \<and> process (pool (the_output s)) \<noteq> Finished
           \<longrightarrow> step Main s = None)
     \<and> (process (pool (the_output s)) = Finished \<longrightarrow>
           (\<forall>w\<in>set (pool_workers s). w = Exited))
     \<and> (PoolJoin \<in> set (main_done s) \<longrightarrow>
           process (pool (the_output s)) = Finished
           \<and> (\<forall>w\<in>set (pool_workers s). w = Exited))
     \<and> (ReassemblerStop \<in> set (main_done s) \<longrightarrow> PoolJoin \<in> set (main_done s))
     \<and> (FlusherStop \<in> set (main_done s) \<longrightarrow> ReassemblerStop \<in> set (main_done s))"
proof -
  from init_invariant assms(1) have inv: "teardown_invariant cfg k s"
    by (rule run_invariant)
  then have p: "main_done s @ main_todo s = main_events cfg k"
    by (simp add: teardown_invariant_def program_invariant_def)
  note order = teardown_calls_in_order [OF p]
  have a: "main (Parsed cfg) (Some k) True = Some (main_done s @ main_todo s)"
    by (simp only: p main_returns)
  have b: "\<exists>before. main_done s @ main_todo s =
            before @ [StopRecording 0, StopRecording 1, PoolStop, PoolJoin,
              CancelJoinThread FramesQueue, CancelJoinThread InferencedQueue, CameraClose,
              ReassemblerStop, FlusherStop]
          \<and> set before \<inter> {StopRecording 0, StopRecording 1, PoolStop, PoolJoin,
              CancelJoinThread FramesQueue, CancelJoinThread InferencedQueue, CameraClose,
              ReassemblerStop, FlusherStop} = {}"
    by (simp only: p main_events_teardown)
  have c: "\<not> recording s \<and> (\<forall>buf. Camera buf \<notin> set sched')"
    if "StopRecording 1 \<in> set (main_done s)"
    using inv that recording_stopped_run [OF inv that assms(2)]
    by (simp add: teardown_invariant_def stopped_invariant_def)
  have d: "step Main s = None"
    if "main_todo s = PoolJoin # es \<and> process (pool (the_output s)) \<noteq> Finished" for es
    using that by (intro join_blocks [of s es]) simp_all
  have e: "\<forall>w\<in>set (pool_workers s). w = Exited"
    if "process (pool (the_output s)) = Finished"
  proof -
    from inv that have "\<forall>j<length (pool_workers s). pool_workers s ! j = Exited"
      by (simp add: teardown_invariant_def workers_invariant_def)
    then show ?thesis by (simp add: all_set_conv_all_nth)
  qed
  have f: "process (pool (the_output s)) = Finished
      \<and> (\<forall>w\<in>set (pool_workers s). w = Exited)"
    if "PoolJoin \<in> set (main_done s)"
    using joined_workers_exited [OF inv that] by simp
  from a b c d e f order show ?thesis by blast
qed

lemma complete_run_example:
  "run (schedule_to_join @ replicate 5 Main) (system_init example_config 0) \<noteq> None"
  "FlusherStop \<in> set (main_done (the (run (schedule_to_join @ replicate 5 Main)
      (system_init example_config 0))))"
  by code_simp+

theorem teardown_order_witness:
  "run (schedule_to_join @ replicate 5 Main) (system_init example_config 0) \<noteq> None
   \<and> run [] (the (run (schedule_to_join @ replicate 5 Main) (system_init example_config 0)))
        \<noteq> None
   \<and> FlusherStop \<in> set (main_done (the (run (schedule_to_join @ replicate 5 Main)
        (system_init example_config 0))))
   \<and> ReassemblerStop \<in> set (main_done (the (run (schedule_to_join @ replicate 5 Main)
        (system_init example_config 0))))
   \<and> PoolJoin \<in> set (main_done (the (run (schedule_to_join @ replicate 5 Main)
        (system_init example_config 0))))
   \<and> PoolStop \<in> set (main_done (the (run (schedule_to_join @ replicate 5 Main)
        (system_init example_config 0))))
   \<and> StopRecording 1 \<in> set (main_done (the (run (schedule_to_join @ replicate 5 Main)
        (system_init example_config 0))))
   \<and> \<not> recording (the (run (schedule_to_join @ replicate 5 Main)
        (system_init example_config 0)))
   \<and> list_all (\<lambda>w. w = Exited) (pool_workers (the (run (schedule_to_join @ replicate 5 Main)
        (system_init example_config 0))))"
proof -
  let ?s = "the (run (schedule_to_join @ replicate 5 Main) (system_init example_config 0))"
  have a: "run (schedule_to_join @ replicate 5 Main) (system_init example_config 0) = Some ?s"
    using complete_run_example(1) by simp
  have b: "run [] ?s = Some ?s" by simp
  note t = teardown_order [OF a b]
  have f: "FlusherStop \<in> set (main_done ?s)" by (rule complete_run_example(2))
  with t have r: "ReassemblerStop \<in> set (main_done ?s)" by blast
  with t have j: "PoolJoin \<in> set (main_done ?s)" by blast
  with t have p: "PoolStop \<in> set (main_done ?s)" by blast
  with t have c: "StopRecording 1 \<in> set (main_done ?s)" by blast
  with t have off: "\<not> recording ?s" by blast
  from t j have "\<forall>w\<in>set (pool_workers ?s). w = Exited" by blast
  then have w: "list_all (\<lambda>w. w = Exited) (pool_workers ?s)"
    by (simp add: list_all_iff)
  from complete_run_example(1) f r j p c off w show ?thesis by simp
qed

end
